theory Spec2Isabelle
  imports Main "HOL-Library.Multiset"
begin

section \<open>Strings\<close>

text \<open>
  A JavaScript string is modelled as a HOL \<open>string\<close>, one \<open>char\<close> per code unit below 256.
  \<open>toLowerCase\<close> lowers the letters A to Z and \<open>trim\<close> strips blanks, tabs and line breaks;
  the wider Unicode tables of the browser are not part of the model.
\<close>

definition is_space :: "char \<Rightarrow> bool" where
  "is_space c = (c \<in> set [CHR '' '', CHR 0x09, CHR 0x0A, CHR 0x0B, CHR 0x0C, CHR 0x0D])"

definition trim :: "string \<Rightarrow> string" where
  "trim s = rev (dropWhile is_space (rev (dropWhile is_space s)))"

definition lower_char :: "char \<Rightarrow> char" where
  "lower_char c =
     (case map_of (zip ''ABCDEFGHIJKLMNOPQRSTUVWXYZ'' ''abcdefghijklmnopqrstuvwxyz'') c of
        Some d \<Rightarrow> d
      | None \<Rightarrow> c)"

definition toLowerCase :: "string \<Rightarrow> string" where
  "toLowerCase s = map lower_char s"

fun startsWith :: "string \<Rightarrow> string \<Rightarrow> bool" where
  "startsWith s [] = True"
| "startsWith [] (y # ys) = False"
| "startsWith (x # xs) (y # ys) = (x = y \<and> startsWith xs ys)"

text \<open>\<open>s.includes(t)\<close>: \<open>t\<close> occurs in \<open>s\<close> as a contiguous run.\<close>

fun js_includes :: "string \<Rightarrow> string \<Rightarrow> bool" where
  "js_includes [] t = (t = [])"
| "js_includes (x # xs) t = (startsWith (x # xs) t \<or> js_includes xs t)"

text \<open>Splitting a \<open>class\<close> attribute into its tokens.\<close>

fun tokens_acc :: "string \<Rightarrow> string \<Rightarrow> string list" where
  "tokens_acc w [] = (if w = [] then [] else [rev w])"
| "tokens_acc w (c # cs) =
     (if is_space c then (if w = [] then [] else [rev w]) @ tokens_acc [] cs
      else tokens_acc (c # w) cs)"

definition tokens :: "string \<Rightarrow> string list" where
  "tokens s = tokens_acc [] s"

section \<open>The document\<close>

text \<open>
  An element carries an identity (the object reference that the script holds in its
  constants and closures), its tag, its attributes in source order, the properties written
  through \<open>el.style\<close> since the \<open>style\<close> attribute was last set as text, and its children.
  Markup, as read and written through \<open>innerHTML\<close>, has no identities.
\<close>

type_synonym attrs = "(string \<times> string) list"

datatype node =
    Elem nat string attrs attrs "node list"
  | Text string

datatype html =
    HElem string attrs "html list"
  | HText string

fun nid :: "node \<Rightarrow> nat" where
  "nid (Elem i t a c ks) = i"
| "nid (Text x) = 0"

fun kids :: "node \<Rightarrow> node list" where
  "kids (Elem i t a c ks) = ks"
| "kids (Text x) = []"

fun put :: "string \<Rightarrow> string \<Rightarrow> attrs \<Rightarrow> attrs" where
  "put k v [] = [(k, v)]"
| "put k v ((k', v') # a) = (if k = k' then (k, v) # a else (k', v') # put k v a)"

definition del :: "string \<Rightarrow> attrs \<Rightarrow> attrs" where
  "del k a = filter (\<lambda>kv. fst kv \<noteq> k) a"

definition css_text :: "attrs \<Rightarrow> string" where
  "css_text c = concat (map (\<lambda>pv. fst pv @ '': '' @ snd pv @ '';'') c)"

text \<open>
  The attributes as markup shows them: properties written through \<open>el.style\<close> are appended
  to the text of the \<open>style\<close> attribute.
\<close>

definition ser_attrs :: "attrs \<Rightarrow> attrs \<Rightarrow> attrs" where
  "ser_attrs a c =
     (if c = [] then a
      else put ''style'' ((case map_of a ''style'' of None \<Rightarrow> [] | Some t \<Rightarrow> t) @ css_text c) a)"

fun getAttribute :: "string \<Rightarrow> node \<Rightarrow> string option" where
  "getAttribute k (Elem i t a c ks) = map_of (ser_attrs a c) k"
| "getAttribute k (Text x) = None"

fun setAttribute :: "string \<Rightarrow> string \<Rightarrow> node \<Rightarrow> node" where
  "setAttribute k v (Elem i t a c ks) =
     (if k = ''style'' then Elem i t (put k v a) [] ks else Elem i t (put k v a) c ks)"
| "setAttribute k v (Text x) = Text x"

fun removeAttribute :: "string \<Rightarrow> node \<Rightarrow> node" where
  "removeAttribute k (Elem i t a c ks) =
     (if k = ''style'' then Elem i t (del k a) [] ks else Elem i t (del k a) c ks)"
| "removeAttribute k (Text x) = Text x"

text \<open>\<open>el.style.p = v\<close>; the empty string removes the property.\<close>

fun set_style :: "string \<Rightarrow> string \<Rightarrow> node \<Rightarrow> node" where
  "set_style p v (Elem i t a c ks) = Elem i t a (if v = [] then del p c else put p v c) ks"
| "set_style p v (Text x) = Text x"

fun appendChild :: "node \<Rightarrow> node \<Rightarrow> node" where
  "appendChild n (Elem i t a c ks) = Elem i t a c (ks @ [n])"
| "appendChild n (Text x) = Text x"

fun set_kids :: "node list \<Rightarrow> node \<Rightarrow> node" where
  "set_kids ns (Elem i t a c ks) = Elem i t a c ns"
| "set_kids ns (Text x) = Text x"

fun textContent :: "node \<Rightarrow> string" where
  "textContent (Text x) = x"
| "textContent (Elem i t a c ks) = concat (map textContent ks)"

fun to_html :: "node \<Rightarrow> html" where
  "to_html (Elem i t a c ks) = HElem t (ser_attrs a c) (map to_html ks)"
| "to_html (Text x) = HText x"

fun count_elems :: "html list \<Rightarrow> nat" where
  "count_elems [] = 0"
| "count_elems (HText x # hs) = count_elems hs"
| "count_elems (HElem t a ks # hs) = Suc (count_elems ks + count_elems hs)"

text \<open>Parsing markup creates new elements, numbered from \<open>n\<close> in document order.\<close>

fun build :: "nat \<Rightarrow> html list \<Rightarrow> node list" where
  "build n [] = []"
| "build n (HText x # hs) = Text x # build n hs"
| "build n (HElem t a ks # hs) =
     Elem n t a [] (build (Suc n) ks) # build (Suc n + count_elems ks) hs"

subsection \<open>Queries, in document order\<close>

fun first_match :: "(node \<Rightarrow> bool) \<Rightarrow> node list \<Rightarrow> node option" where
  "first_match P [] = None"
| "first_match P (Text x # ns) = first_match P ns"
| "first_match P (Elem i t a c ks # ns) =
     (if P (Elem i t a c ks) then Some (Elem i t a c ks)
      else (case first_match P ks of Some n \<Rightarrow> Some n | None \<Rightarrow> first_match P ns))"

fun all_matches :: "(node \<Rightarrow> bool) \<Rightarrow> node list \<Rightarrow> node list" where
  "all_matches P [] = []"
| "all_matches P (Text x # ns) = all_matches P ns"
| "all_matches P (Elem i t a c ks # ns) =
     (if P (Elem i t a c ks) then [Elem i t a c ks] else []) @ all_matches P ks @ all_matches P ns"

text \<open>Removing every matching element, with its subtree, from its parent.\<close>

fun remove_matches :: "(node \<Rightarrow> bool) \<Rightarrow> node list \<Rightarrow> node list" where
  "remove_matches P [] = []"
| "remove_matches P (Text x # ns) = Text x # remove_matches P ns"
| "remove_matches P (Elem i t a c ks # ns) =
     (if P (Elem i t a c ks) then remove_matches P ns
      else Elem i t a c (remove_matches P ks) # remove_matches P ns)"

text \<open>
  The removed elements themselves; a matching element inside another one is removed from
  it in its own right.
\<close>

fun detach_matches :: "(node \<Rightarrow> bool) \<Rightarrow> node list \<Rightarrow> node list" where
  "detach_matches P [] = []"
| "detach_matches P (Text x # ns) = detach_matches P ns"
| "detach_matches P (Elem i t a c ks # ns) =
     (if P (Elem i t a c ks) then [Elem i t a c (remove_matches P ks)] else []) @
     detach_matches P ks @ detach_matches P ns"

text \<open>Applying \<open>f\<close> to the element with identity \<open>i\<close>.\<close>

fun modify :: "nat \<Rightarrow> (node \<Rightarrow> node) \<Rightarrow> node list \<Rightarrow> node list" where
  "modify i f [] = []"
| "modify i f (Text x # ns) = Text x # modify i f ns"
| "modify i f (Elem j t a c ks # ns) =
     (if i = j then f (Elem j t a c ks) else Elem j t a c (modify i f ks)) # modify i f ns"

fun has_nid :: "nat \<Rightarrow> node \<Rightarrow> bool" where
  "has_nid i (Elem j t a c ks) = (i = j)"
| "has_nid i (Text x) = False"

definition has_id :: "string \<Rightarrow> node \<Rightarrow> bool" where
  "has_id v n = (getAttribute ''id'' n = Some v)"

definition has_classes :: "string list \<Rightarrow> node \<Rightarrow> bool" where
  "has_classes cs n =
     (case getAttribute ''class'' n of
        None \<Rightarrow> False
      | Some v \<Rightarrow> list_all (\<lambda>c. c \<in> set (tokens v)) cs)"

definition getElementById :: "string \<Rightarrow> node list \<Rightarrow> node option" where
  "getElementById v d = first_match (has_id v) d"

text \<open>The selector \<open>.game-card.game-card--rom\<close>.\<close>

definition game_card :: "node \<Rightarrow> bool" where
  "game_card n = has_classes [''game-card'', ''game-card--rom''] n"

text \<open>The selector \<open>script[src^="p"], script[src^="q"]\<close>.\<close>

fun script_src_prefix :: "string \<Rightarrow> string \<Rightarrow> node \<Rightarrow> bool" where
  "script_src_prefix p q (Elem i t a c ks) =
     (t = ''script'' \<and>
      (case map_of (ser_attrs a c) ''src'' of
         None \<Rightarrow> False
       | Some v \<Rightarrow> startsWith v p \<or> startsWith v q))"
| "script_src_prefix p q (Text x) = False"

section \<open>The page state\<close>

datatype error = TypeError

text \<open>Calls that leave the page: focus, the confirmation dialog, the console, the engine.\<close>

datatype effect =
    Focus nat
  | Confirm string
  | ConsoleWarn string
  | ConsoleError string
  | ExitHook
  | PreventDefault
  | RequestFullscreen nat
  | ExitFullscreen

text \<open>
  \<open>window.EJS_emulator\<close> belongs to the external engine: it is missing, or an object
  without a function \<open>exit\<close>, or an object whose \<open>exit\<close> returns (\<open>False\<close>) or throws
  (\<open>True\<close>). What \<open>exit\<close> itself does to the page is the engine's affair.
\<close>

datatype emulator = NoEmulator | WithoutExit | WithExit bool

text \<open>The listeners the script registers, each with the variables its closure captures.\<close>

datatype handler =
    SearchClick
  | CardClick nat
  | CardKeypress nat
  | RestoredClick
  | RestoredKeypress
  | BackClick
  | FullClick nat
  | ScriptError nat nat

record state =
  doc :: "node list"
  detached :: "node list"
  next_id :: nat
  listeners :: "(nat \<times> string \<times> handler) list"
  timers :: "(nat \<times> string) list"
  bodyClass :: "string list"
  fullscreenElement :: "nat option"
  EJS_player :: "string option"
  EJS_gameUrl :: "string option"
  EJS_gameName :: "string option"
  EJS_core :: "string option"
  EJS_pathtodata :: "string option"
  EJS_startOnLoaded :: "bool option"
  EJS_disableDatabases :: "bool option"
  EJS_disableLocalStorage :: "bool option"
  EJS_emulator :: emulator
  trace :: "effect list"
  uncaught :: "error list"

text \<open>
  \<open>doc\<close> holds the children of \<open>document.body\<close>; \<open>detached\<close> holds the subtrees that were
  taken out of the document, which the script can still reach through its references.
  The constants of the \<open>DOMContentLoaded\<close> callback (lines 9 to 20) never change:
\<close>

record closure =
  searchInput :: "nat option"
  searchBtn :: nat
  gameBtn :: "nat option"
  launchSection :: nat
  mainApp :: "nat option"
  titleLogo :: "nat option"
  controlsSection :: "nat option"
  originalLaunchHTML :: "html list"
  originalLogoStyle :: string

text \<open>An exception leaves the changes made before it in place.\<close>

datatype outcome = Returns state | Throws error state

text \<open>
  What the browser and the user supply to a listener: the key of a key event, the \<open>value\<close>
  of the search field, the answer to \<open>confirm\<close>, and whether a fullscreen request or exit
  is granted.
\<close>

record world =
  key :: string
  typed :: "string option"
  answer :: bool
  granted :: bool

definition lookup :: "nat \<Rightarrow> state \<Rightarrow> node option" where
  "lookup i s = first_match (has_nid i) (doc s @ detached s)"

definition update :: "nat \<Rightarrow> (node \<Rightarrow> node) \<Rightarrow> state \<Rightarrow> state" where
  "update i f s = s\<lparr>doc := modify i f (doc s), detached := modify i f (detached s)\<rparr>"

definition innerHTML :: "nat \<Rightarrow> state \<Rightarrow> html list" where
  "innerHTML i s = (case lookup i s of None \<Rightarrow> [] | Some n \<Rightarrow> map to_html (kids n))"

text \<open>
  Assigning \<open>innerHTML\<close>: the old children leave the document (they stay reachable through
  old references) and the markup is parsed into new elements.
\<close>

definition set_innerHTML :: "nat \<Rightarrow> html list \<Rightarrow> state \<Rightarrow> state" where
  "set_innerHTML i h s =
     (let old = (case lookup i s of None \<Rightarrow> [] | Some n \<Rightarrow> kids n);
          new = build (next_id s) h
      in s\<lparr>doc := modify i (set_kids new) (doc s),
            detached := modify i (set_kids new) (detached s) @ old,
            next_id := next_id s + count_elems h\<rparr>)"

definition attribute :: "nat \<Rightarrow> string \<Rightarrow> state \<Rightarrow> string option" where
  "attribute i k s = (case lookup i s of None \<Rightarrow> None | Some n \<Rightarrow> getAttribute k n)"

text \<open>The \<open>placeholder\<close> property reflects the attribute, \<open>""\<close> when it is missing.\<close>

definition placeholder :: "nat \<Rightarrow> state \<Rightarrow> string" where
  "placeholder i s = (case attribute i ''placeholder'' s of None \<Rightarrow> [] | Some v \<Rightarrow> v)"

text \<open>\<open>innerText\<close> is taken to be the text of the subtree.\<close>

definition innerText :: "nat \<Rightarrow> state \<Rightarrow> string" where
  "innerText i s = (case lookup i s of None \<Rightarrow> [] | Some n \<Rightarrow> textContent n)"

definition effect :: "effect \<Rightarrow> state \<Rightarrow> state" where
  "effect x s = s\<lparr>trace := trace s @ [x]\<rparr>"

section \<open>The search button (lines 26 to 42)\<close>

definition searchBtn_click :: "closure \<Rightarrow> world \<Rightarrow> state \<Rightarrow> outcome" where
  "searchBtn_click e w s =
     (case searchInput e of
        None \<Rightarrow> Throws TypeError s
      | Some inp \<Rightarrow>
          let q = toLowerCase (trim (case typed w of None \<Rightarrow> [] | Some v \<Rightarrow> v)) in
          if q = [] then
            (case gameBtn e of
               None \<Rightarrow> Throws TypeError s
             | Some g \<Rightarrow> Returns (effect (Focus g) s))
          else
            (case gameBtn e of
               None \<Rightarrow> Throws TypeError s
             | Some g \<Rightarrow>
                 if js_includes (toLowerCase (innerText g s)) q \<or> js_includes q ''rojo'' \<or>
                    js_includes q ''pokemon'' \<or> js_includes q ''buscar''
                 then Returns (effect (Focus g) s)
                 else
                   let ph = placeholder inp s;
                       s1 = update inp (setAttribute ''placeholder'' ''No encontrado'') s
                   in Returns (s1\<lparr>timers := timers s1 @ [(1000, ph)]\<rparr>)))"

text \<open>The callback of \<open>setTimeout\<close> (line 40), run for the oldest pending timer.\<close>

definition timeout :: "closure \<Rightarrow> state \<Rightarrow> state" where
  "timeout e s =
     (case timers s of
        [] \<Rightarrow> s
      | (d, ph) # ts \<Rightarrow>
          (case searchInput e of
             None \<Rightarrow> s\<lparr>timers := ts\<rparr>
           | Some inp \<Rightarrow> update inp (setAttribute ''placeholder'' ph) (s\<lparr>timers := ts\<rparr>)))"

section \<open>Entering and leaving a game (lines 57 to 226)\<close>

definition enterGameUIState :: "closure \<Rightarrow> state \<Rightarrow> state" where
  "enterGameUIState e s =
     (let s1 = (case controlsSection e of
                  None \<Rightarrow> s
                | Some c \<Rightarrow> update c (set_style ''display'' ''none'') s)
      in case titleLogo e of
           None \<Rightarrow> s1
         | Some l \<Rightarrow>
             update l (set_style ''marginBottom'' ''6px'')
               (update l (set_style ''opacity'' ''0.9'')
                 (update l (set_style ''width'' ''160px'')
                   (update l (set_style ''transition'' ''width 200ms ease, opacity 200ms ease'')
                     s1))))"

text \<open>
  Lines 82 to 91 look the button up in the document again and bind \<open>openEmulator\<close> itself
  to \<open>click\<close>, and a function that calls \<open>openEmulator()\<close> to \<open>keypress\<close>.
\<close>

definition restoreMenuUIState :: "closure \<Rightarrow> state \<Rightarrow> state" where
  "restoreMenuUIState e s =
     (let s1 = set_innerHTML (launchSection e) (originalLaunchHTML e) s;
          s2 = (case titleLogo e of
                  None \<Rightarrow> s1
                | Some l \<Rightarrow>
                    if originalLogoStyle e \<noteq> []
                    then update l (setAttribute ''style'' (originalLogoStyle e)) s1
                    else update l (removeAttribute ''style'') s1);
          s3 = (case getElementById ''gameBtn'' (doc s2) of
                  None \<Rightarrow> s2
                | Some b \<Rightarrow>
                    s2\<lparr>listeners := listeners s2 @
                         [(nid b, ''click'', RestoredClick), (nid b, ''keypress'', RestoredKeypress)]\<rparr>)
      in case controlsSection e of
           None \<Rightarrow> s3
         | Some c \<Rightarrow> update c (set_style ''display'' []) s3)"

text \<open>
  The session container of lines 108 to 156, built from five new elements numbered in the
  order of their \<open>createElement\<close> calls: wrapper, menu bar, back button, fullscreen button,
  mount point.
\<close>

definition backBtn :: "nat \<Rightarrow> node" where
  "backBtn n =
     Elem (n + 2) ''button'' [(''id'', ''game-back-btn''), (''class'', ''btn'')]
       [(''minWidth'', ''150px''), (''background'', ''#c0392b''), (''color'', ''#fff'')]
       [Text ''VOLVER (SALIR)'']"

definition fullBtn :: "nat \<Rightarrow> node" where
  "fullBtn n =
     Elem (n + 3) ''button'' [(''id'', ''game-full-btn''), (''class'', ''btn'')]
       [(''background'', ''rgba(255,255,255,0.06)''), (''color'', ''white'')]
       [Text ''PANTALLA COMPLETA'']"

definition menuBar :: "nat \<Rightarrow> node" where
  "menuBar n =
     Elem (n + 1) ''div'' [(''id'', ''game-menu-bar'')]
       [(''position'', ''absolute''), (''top'', ''8px''), (''right'', ''12px''),
        (''zIndex'', ''9999''), (''display'', ''flex''), (''gap'', ''8px''),
        (''alignItems'', ''center''), (''pointerEvents'', ''auto'')]
       [backBtn n, fullBtn n]"

definition gameDiv :: "nat \<Rightarrow> node" where
  "gameDiv n =
     Elem (n + 4) ''div'' [(''id'', ''game'')]
       [(''width'', ''100%''), (''height'', ''100%''), (''position'', ''relative'')]
       [menuBar n]"

definition gameContainerWrapper :: "nat \<Rightarrow> node" where
  "gameContainerWrapper n =
     Elem n ''div'' [(''id'', ''game-wrapper'')]
       [(''width'', ''100%''), (''height'', ''520px''), (''marginTop'', ''12px''),
        (''borderRadius'', ''12px''), (''overflow'', ''hidden''), (''background'', ''#000''),
        (''position'', ''relative'')]
       [gameDiv n]"

text \<open>Lines 104 to 160: the compact presentation and the launch area replaced.\<close>

definition show_session :: "closure \<Rightarrow> state \<Rightarrow> state" where
  "show_session e s =
     (let n = next_id s;
          s1 = enterGameUIState e s;
          s2 = set_innerHTML (launchSection e) [] (s1\<lparr>next_id := n + 5\<rparr>)
      in update (launchSection e) (appendChild (gameContainerWrapper n)) s2)"

text \<open>Lines 165 to 174: the globals that the loader reads.\<close>

definition configure :: "string \<Rightarrow> string \<Rightarrow> state \<Rightarrow> state" where
  "configure romPath gameTitle s =
     s\<lparr>EJS_player := Some ''#game'',
       EJS_gameUrl := Some romPath,
       EJS_gameName := Some gameTitle,
       EJS_core := Some ''gba'',
       EJS_pathtodata := Some ''jjjjj/EmulatorJS-main/data/'',
       EJS_startOnLoaded := Some True,
       EJS_disableDatabases := Some True,
       EJS_disableLocalStorage := Some True\<rparr>"

definition pathtodata :: "state \<Rightarrow> string" where
  "pathtodata s = (case EJS_pathtodata s of None \<Rightarrow> ''undefined'' | Some p \<Rightarrow> p)"

text \<open>
  Lines 177 to 188: the script element, its \<open>onerror\<close> callback and its insertion at the
  end of the body. \<open>g\<close> is the mount point that the callback captures.
\<close>

definition load_loader :: "nat \<Rightarrow> state \<Rightarrow> state" where
  "load_loader g s =
     (let n = next_id s;
          script = Elem n ''script'' [(''src'', pathtodata s @ ''loader.js''), (''async'', [])] [] []
      in s\<lparr>next_id := n + 1,
            listeners := listeners s @ [(n, ''error'', ScriptError g n)],
            doc := doc s @ [script]\<rparr>)"

text \<open>Lines 191 and 215: the listeners of the two overlay buttons.\<close>

definition bind_controls :: "nat \<Rightarrow> state \<Rightarrow> state" where
  "bind_controls n s =
     s\<lparr>listeners := listeners s @ [(n + 2, ''click'', BackClick), (n + 3, ''click'', FullClick n)]\<rparr>"

text \<open>
  The argument of \<open>openEmulator\<close>: nothing (\<open>openEmulator()\<close>), \<open>null\<close> (no card found), a
  card element, or the event object that \<open>addEventListener\<close> hands to a listener.
\<close>

datatype arg = Undefined | Null | Element nat | Event

definition resolve :: "arg \<Rightarrow> state \<Rightarrow> arg" where
  "resolve cardElement s =
     (if cardElement = Undefined \<or> cardElement = Null
      then (case first_match game_card (doc s) of None \<Rightarrow> Null | Some c \<Rightarrow> Element (nid c))
      else cardElement)"

definition default_rom :: string where
  "default_rom = ''/[Poke-Nexus] Pokemon - Edicion Rojo Fuego (Esp).gba''"

text \<open>\<open>x || d\<close> on an attribute read through \<open>dataset\<close>.\<close>

definition or_default :: "string option \<Rightarrow> string \<Rightarrow> string" where
  "or_default x d = (case x of None \<Rightarrow> d | Some v \<Rightarrow> if v = [] then d else v)"

definition openEmulator :: "closure \<Rightarrow> arg \<Rightarrow> state \<Rightarrow> outcome" where
  "openEmulator e cardElement s =
     (if getElementById ''game'' (doc s) \<noteq> None then Returns s
      else
        let card = resolve cardElement s;
            n = next_id s;
            s1 = show_session e s
        in case card of
             Element c \<Rightarrow>
               let romPath = or_default (attribute c ''data-rom'' s1) default_rom;
                   gameTitle = or_default (attribute c ''data-title'' s1) ''Pokemon''
               in Returns (bind_controls n (load_loader (n + 4) (configure romPath gameTitle s1)))
           | _ \<Rightarrow> Throws TypeError s1)"

definition confirmText :: string where
  "confirmText =
     ''Advertencia: si sales ahora NO se guardar'' @ [CHR 0xE1] @ '' el progreso. '' @ [CHR 0xBF] @
     ''Deseas salir sin guardar? (Antes guarda)''"

text \<open>Lines 197 to 204: the engine's \<open>exit\<close>, if there is one, inside \<open>try\<close>.\<close>

definition shutdown :: "state \<Rightarrow> state" where
  "shutdown s =
     (case EJS_emulator s of
        WithExit throws \<Rightarrow>
          if throws then effect (ConsoleWarn ''EJS_emulator.exit failed'') (effect ExitHook s)
          else effect ExitHook s
      | _ \<Rightarrow> s)"

text \<open>Lines 206 and 207: the loader's script elements leave the document.\<close>

definition remove_loader_scripts :: "state \<Rightarrow> state" where
  "remove_loader_scripts s =
     (let P = script_src_prefix (pathtodata s @ ''loader.js'') (pathtodata s @ ''src/loader.js'')
      in s\<lparr>doc := remove_matches P (doc s), detached := detached s @ detach_matches P (doc s)\<rparr>)"

definition backBtn_click :: "closure \<Rightarrow> world \<Rightarrow> state \<Rightarrow> outcome" where
  "backBtn_click e w s =
     (let s1 = effect (Confirm confirmText) s in
      if answer w
      then Returns (restoreMenuUIState e (remove_loader_scripts (shutdown s1)))
      else Returns s1)"

text \<open>Lines 215 to 225; a rejected request is caught and logged.\<close>

definition fullBtn_click :: "nat \<Rightarrow> world \<Rightarrow> state \<Rightarrow> outcome" where
  "fullBtn_click wrapper w s =
     (if fullscreenElement s = None then
        (if granted w
         then Returns ((effect (RequestFullscreen wrapper) s)\<lparr>fullscreenElement := Some wrapper\<rparr>)
         else Returns (effect (ConsoleWarn ''Fullscreen failed:'') (effect (RequestFullscreen wrapper) s)))
      else
        (if granted w
         then Returns ((effect ExitFullscreen s)\<lparr>fullscreenElement := None\<rparr>)
         else Returns (effect (ConsoleWarn ''Fullscreen failed:'') (effect ExitFullscreen s))))"

definition load_error_text :: string where
  "load_error_text =
     ''No se pudo cargar el emulador (loader.js). Revisa la ruta o abre la consola.''"

text \<open>Lines 180 to 187: \<open>script.onerror\<close>.\<close>

definition script_onerror :: "nat \<Rightarrow> nat \<Rightarrow> state \<Rightarrow> outcome" where
  "script_onerror g script s =
     (let n = next_id s;
          err = Elem n ''div'' [] [(''color'', ''white''), (''padding'', ''10px'')] [Text load_error_text]
      in Returns (effect (ConsoleError ''Failed to load loader.js from'')
                    (update g (appendChild err) (s\<lparr>next_id := n + 1\<rparr>))))"

definition activation_key :: "string \<Rightarrow> bool" where
  "activation_key k = (k = '' '' \<or> k = ''Enter'')"

section \<open>Listeners and events\<close>

fun fire :: "closure \<Rightarrow> handler \<Rightarrow> world \<Rightarrow> state \<Rightarrow> outcome" where
  "fire e SearchClick w s = searchBtn_click e w s"
| "fire e (CardClick c) w s = openEmulator e (Element c) s"
| "fire e (CardKeypress c) w s =
     (if activation_key (key w) then openEmulator e (Element c) (effect PreventDefault s)
      else Returns s)"
| "fire e RestoredClick w s = openEmulator e Event s"
| "fire e RestoredKeypress w s =
     (if activation_key (key w) then openEmulator e Undefined (effect PreventDefault s)
      else Returns s)"
| "fire e BackClick w s = backBtn_click e w s"
| "fire e (FullClick wrapper) w s = fullBtn_click wrapper w s"
| "fire e (ScriptError g script) w s = script_onerror g script s"

text \<open>An exception that leaves a listener is reported by the browser as uncaught.\<close>

definition settle :: "outcome \<Rightarrow> state" where
  "settle r = (case r of Returns s \<Rightarrow> s | Throws x s \<Rightarrow> s\<lparr>uncaught := uncaught s @ [x]\<rparr>)"

text \<open>
  An event of type \<open>ty\<close> reaching element \<open>i\<close> runs the listeners registered there, in the
  order of their registration.
\<close>

definition dispatch :: "closure \<Rightarrow> nat \<Rightarrow> string \<Rightarrow> world \<Rightarrow> state \<Rightarrow> state" where
  "dispatch e i ty w s =
     foldl (\<lambda>s' h. settle (fire e h w s')) s
       (map (\<lambda>l. snd (snd l)) (filter (\<lambda>l. fst l = i \<and> fst (snd l) = ty) (listeners s)))"

datatype input =
    Dispatch nat string world
  | Timeout
  | EngineSets emulator

fun step :: "closure \<Rightarrow> state \<Rightarrow> input \<Rightarrow> state" where
  "step e s (Dispatch i ty w) = dispatch e i ty w s"
| "step e s Timeout = timeout e s"
| "step e s (EngineSets em) = s\<lparr>EJS_emulator := em\<rparr>"

definition run :: "closure \<Rightarrow> state \<Rightarrow> input list \<Rightarrow> state" where
  "run e s ins = foldl (step e) s ins"

section \<open>Initialisation (lines 8 to 54)\<close>

definition card_listeners :: "node \<Rightarrow> (nat \<times> string \<times> handler) list" where
  "card_listeners c = [(nid c, ''click'', CardClick (nid c)), (nid c, ''keypress'', CardKeypress (nid c))]"

definition loaded :: "html list \<Rightarrow> state" where
  "loaded page =
     \<lparr>doc = build 0 page, detached = [], next_id = count_elems page, listeners = [],
      timers = [], bodyClass = [], fullscreenElement = None,
      EJS_player = None, EJS_gameUrl = None, EJS_gameName = None, EJS_core = None,
      EJS_pathtodata = None, EJS_startOnLoaded = None, EJS_disableDatabases = None,
      EJS_disableLocalStorage = None, EJS_emulator = NoEmulator, trace = [], uncaught = []\<rparr>"

definition init :: "html list \<Rightarrow> error + closure \<times> state" where
  "init page =
     (let s = loaded page; d = doc s in
      case getElementById ''launch'' d of
        None \<Rightarrow> Inl TypeError
      | Some launch \<Rightarrow>
          (case getElementById ''searchBtn'' d of
             None \<Rightarrow> Inl TypeError
           | Some sb \<Rightarrow>
               let logo = getElementById ''title-logo'' d;
                   e = \<lparr>searchInput = map_option nid (getElementById ''search'' d),
                        searchBtn = nid sb,
                        gameBtn = map_option nid (getElementById ''gameBtn'' d),
                        launchSection = nid launch,
                        mainApp = map_option nid (getElementById ''app'' d),
                        titleLogo = map_option nid logo,
                        controlsSection = map_option nid (first_match (has_classes [''controls'']) d),
                        originalLaunchHTML = map to_html (kids launch),
                        originalLogoStyle =
                          (case logo of
                             None \<Rightarrow> []
                           | Some l \<Rightarrow> (case getAttribute ''style'' l of None \<Rightarrow> [] | Some v \<Rightarrow> v))\<rparr>
               in Inr (e, s\<lparr>bodyClass := [''dark-mode''],
                            listeners := (nid sb, ''click'', SearchClick) #
                              concat (map card_listeners (all_matches game_card d))\<rparr>)))"

section \<open>The search contract of the specification\<close>

text \<open>
  The specification states the search as a function \<open>search(query, targetLabel)\<close> with two
  results; this definition follows its words, to be compared with the listener of the
  source.
\<close>

datatype action = FocusTarget | NotFound

definition allow_list :: "string list" where
  "allow_list = [''rojo'', ''pokemon'', ''buscar'']"

definition search :: "string \<Rightarrow> string \<Rightarrow> action" where
  "search query targetLabel =
     (let q = toLowerCase (trim query) in
      if q = [] then FocusTarget
      else if js_includes (toLowerCase targetLabel) q \<or> list_ex (js_includes q) allow_list
      then FocusTarget
      else NotFound)"

text \<open>\<open>searchInput.value || ""\<close>.\<close>

definition query :: "world \<Rightarrow> string" where
  "query w = (case typed w of None \<Rightarrow> [] | Some v \<Rightarrow> v)"

text \<open>All pending timers fire, oldest first.\<close>

definition settle_timers :: "closure \<Rightarrow> state \<Rightarrow> state" where
  "settle_timers e s = ((timeout e) ^^ length (timers s)) s"

section \<open>Well-formed states\<close>

text \<open>
  The elements of a forest in document order, each with its identity, tag, attributes and
  style properties. A state is well formed when no identity occurs twice among the
  elements in and out of the document and the counter lies above all of them.
\<close>

fun elems :: "node list \<Rightarrow> (nat \<times> string \<times> attrs \<times> attrs) list" where
  "elems [] = []"
| "elems (Text x # ns) = elems ns"
| "elems (Elem i t a c ks # ns) = (i, t, a, c) # elems ks @ elems ns"

definition ids :: "node list \<Rightarrow> nat list" where
  "ids F = map fst (elems F)"

definition forest :: "state \<Rightarrow> node list" where
  "forest s = doc s @ detached s"

definition wellformed :: "state \<Rightarrow> bool" where
  "wellformed s = (distinct (ids (forest s)) \<and> list_all (\<lambda>i. i < next_id s) (ids (forest s)))"

text \<open>A step from a well-formed state keeps every element and stays well formed.\<close>

definition grows :: "state \<Rightarrow> state \<Rightarrow> bool" where
  "grows s s' = (wellformed s \<longrightarrow>
     wellformed s' \<and> set (ids (forest s)) \<subseteq> set (ids (forest s')) \<and> next_id s \<le> next_id s')"

text \<open>The elements that the callback's constants refer to still exist.\<close>

definition handles_live :: "closure \<Rightarrow> state \<Rightarrow> bool" where
  "handles_live e s =
     (wellformed s \<and> launchSection e \<in> set (ids (forest s)) \<and>
      (\<forall>l. titleLogo e = Some l \<longrightarrow> l \<in> set (ids (forest s))) \<and>
      (\<forall>c. controlsSection e = Some c \<longrightarrow> c \<in> set (ids (forest s))))"

definition children_of :: "nat \<Rightarrow> node list \<Rightarrow> node list" where
  "children_of i F = (case first_match (has_nid i) F of None \<Rightarrow> [] | Some n \<Rightarrow> kids n)"

fun root :: "node \<Rightarrow> string \<times> attrs \<times> attrs" where
  "root (Elem i t a c ks) = (t, a, c)"
| "root (Text x) = ([], [], [])"

text \<open>Functions that change attributes or style properties only.\<close>

definition attr_edit :: "(node \<Rightarrow> node) \<Rightarrow> bool" where
  "attr_edit f = (\<forall>i t a c ks. \<exists>a' c'. f (Elem i t a c ks) = Elem i t a' c' ks)"

text \<open>Selectors that do not look at the children.\<close>

definition root_only :: "(node \<Rightarrow> bool) \<Rightarrow> bool" where
  "root_only P = (\<forall>i t a c ks ks'. P (Elem i t a c ks) = P (Elem i t a c ks'))"

text \<open>Two states with the same document, detached nodes, counter, listeners and data path.\<close>

definition dom_eq :: "state \<Rightarrow> state \<Rightarrow> bool" where
  "dom_eq s t =
     (doc s = doc t \<and> detached s = detached t \<and> next_id s = next_id t \<and>
      listeners s = listeners t \<and> EJS_pathtodata s = EJS_pathtodata t)"

text \<open>The selector of line 206 in state \<open>s\<close>.\<close>

definition loader_script :: "state \<Rightarrow> node \<Rightarrow> bool" where
  "loader_script s =
     script_src_prefix (pathtodata s @ ''loader.js'') (pathtodata s @ ''src/loader.js'')"

text \<open>What the shutdown of lines 197 to 204 adds to the trace.\<close>

definition hook_trace :: "emulator \<Rightarrow> effect list" where
  "hook_trace em =
     (case em of
        WithExit throws \<Rightarrow>
          ExitHook # (if throws then [ConsoleWarn ''EJS_emulator.exit failed''] else [])
      | _ \<Rightarrow> [])"

text \<open>The script element of line 177 with the data path of line 170.\<close>

definition loader_element :: "nat \<Rightarrow> node" where
  "loader_element n =
     Elem n ''script'' [(''src'', ''jjjjj/EmulatorJS-main/data/loader.js''), (''async'', [])] [] []"

text \<open>
  Counting the elements with id \<open>game\<close>, and the steps that add none.
\<close>

definition is_mount :: "nat \<times> string \<times> attrs \<times> attrs \<Rightarrow> bool" where
  "is_mount x = (map_of (ser_attrs (fst (snd (snd x))) (snd (snd (snd x)))) ''id'' = Some ''game'')"

definition mounts :: "node list \<Rightarrow> nat" where
  "mounts F = length (filter is_mount (elems F))"

definition keeps_id :: "(node \<Rightarrow> node) \<Rightarrow> bool" where
  "keeps_id g =
     (\<forall>i t a c ks. \<exists>a' c'. g (Elem i t a c ks) = Elem i t a' c' ks \<and>
        map_of (ser_attrs a' c') ''id'' = map_of (ser_attrs a c) ''id'')"

definition calm :: "state \<Rightarrow> state \<Rightarrow> bool" where
  "calm s t = (grows s t \<and> (wellformed s \<longrightarrow> mounts (doc t) \<le> mounts (doc s)))"

definition mount_free :: "closure \<Rightarrow> bool" where
  "mount_free e = (\<forall>k. mounts (build k (originalLaunchHTML e)) = 0)"

definition one_session :: "state \<Rightarrow> bool" where
  "one_session s = (wellformed s \<and> mounts (doc s) \<le> 1)"

section \<open>Sample pages\<close>

text \<open>
  The markup of the page is not part of the script. These pages have the elements that
  the script looks up: a logo, the controls with the search field and its button, and a
  launch section whose first child is both the game button and a game card.
\<close>

definition menu_page :: "attrs \<Rightarrow> attrs \<Rightarrow> html list \<Rightarrow> html list" where
  "menu_page logo data others =
     [HElem ''img'' ((''id'', ''title-logo'') # logo) [],
      HElem ''div'' [(''class'', ''controls'')]
        [HElem ''input'' [(''id'', ''search''), (''placeholder'', ''Buscar'')] [],
         HElem ''button'' [(''id'', ''searchBtn'')] [HText ''Buscar'']],
      HElem ''main'' [(''id'', ''app'')]
        [HElem ''section'' [(''id'', ''launch'')]
           (HElem ''button''
              ([(''id'', ''gameBtn''), (''class'', ''game-card game-card--rom'')] @ data)
              [HText ''Pokemon Rojo Fuego''] # others)]]"

definition sample_page :: "html list" where
  "sample_page =
     menu_page [(''style'', ''width: 320px'')] [(''data-rom'', ''/a.gba''), (''data-title'', ''Foo'')] []"


definition empty_rom_page :: "html list" where
  "empty_rom_page =
     menu_page [] [(''data-rom'', []), (''data-title'', ''Foo'')] []"

definition two_card_page :: "html list" where
  "two_card_page =
     menu_page [] [(''data-rom'', ''/a.gba''), (''data-title'', ''Foo'')]
       [HElem ''button''
          [(''class'', ''game-card game-card--rom''), (''data-rom'', ''/b.gba''), (''data-title'', ''Bar'')]
          [HText ''Otro juego'']]"

text \<open>A user who has typed \<open>v\<close>, presses Enter on key events and answers \<open>confirm\<close> with \<open>yes\<close>.\<close>

definition user :: "string \<Rightarrow> bool \<Rightarrow> world" where
  "user v yes = \<lparr>key = ''Enter'', typed = Some v, answer = yes, granted = True\<rparr>"

text \<open>The page after \<open>DOMContentLoaded\<close> and a sequence of inputs.\<close>

definition session :: "html list \<Rightarrow> input list \<Rightarrow> state option" where
  "session page ins =
     (case init page of Inl x \<Rightarrow> None | Inr es \<Rightarrow> Some (run (fst es) (snd es) ins))"

definition sample_closure :: closure where
  "sample_closure = fst (projr (init sample_page))"

definition sample_state :: state where
  "sample_state = snd (projr (init sample_page))"

definition sample_in_game :: state where
  "sample_in_game = run sample_closure sample_state [Dispatch 6 ''click'' (user [] True)]"

definition sample_engine_up :: state where
  "sample_engine_up = sample_in_game\<lparr>EJS_emulator := WithExit True\<rparr>"

section \<open>Properties\<close>

subsection \<open>Reading an element after it was updated\<close>

lemma map_of_put: "map_of (put k v a) k' = (if k' = k then Some v else map_of a k')"
  by (induction a) auto

lemma first_match_append:
  "first_match P (xs @ ys) = (case first_match P xs of Some n \<Rightarrow> Some n | None \<Rightarrow> first_match P ys)"
  by (induction P xs rule: first_match.induct) (auto split: option.splits)

lemma first_match_modify_same:
  assumes "\<And>n. has_nid i n \<Longrightarrow> has_nid i (f n)"
  shows "first_match (has_nid i) (modify i f F) = map_option f (first_match (has_nid i) F)"
  using assms
proof (induction i f F rule: modify.induct)
  case (3 i f j t a c ks ns)
  show ?case
  proof (cases "i = j")
    case True
    then have "has_nid i (f (Elem j t a c ks))" using 3(3) by simp
    then obtain t' a' c' ks' where "f (Elem j t a c ks) = Elem i t' a' c' ks'"
      by (cases "f (Elem j t a c ks)") auto
    with True show ?thesis by simp
  next
    case False
    with 3 show ?thesis by (auto split: option.splits)
  qed
qed simp_all

lemma lookup_update_same:
  assumes "\<And>n. has_nid i n \<Longrightarrow> has_nid i (f n)"
  shows "lookup i (update i f s) = map_option f (lookup i s)"
  using assms
  by (simp add: lookup_def update_def first_match_append first_match_modify_same split: option.splits)

lemma has_nid_setAttribute: "has_nid i n \<Longrightarrow> has_nid i (setAttribute k v n)"
  by (cases n) auto

lemma getAttribute_setAttribute:
  "has_nid i n \<Longrightarrow> getAttribute k (setAttribute k v n) = Some v"
  by (cases n) (auto simp: ser_attrs_def map_of_put)

lemma first_match_sat: "first_match P F = Some n \<Longrightarrow> P n"
  by (induction P F rule: first_match.induct) (auto split: if_splits option.splits)

lemma lookup_has_nid: "lookup i s = Some n \<Longrightarrow> has_nid i n"
  unfolding lookup_def by (rule first_match_sat)

lemma attribute_update_same:
  assumes "lookup i s \<noteq> None"
  shows "attribute i k (update i (setAttribute k v) s) = Some v"
proof -
  from assms obtain n where n: "lookup i s = Some n" by auto
  have "lookup i (update i (setAttribute k v) s) = Some (setAttribute k v n)"
    by (simp add: lookup_update_same has_nid_setAttribute n)
  then show ?thesis
    by (simp add: attribute_def getAttribute_setAttribute [OF lookup_has_nid [OF n]])
qed

lemma placeholder_update:
  "lookup i s \<noteq> None \<Longrightarrow> placeholder i (update i (setAttribute ''placeholder'' v) s) = v"
  by (simp add: placeholder_def attribute_update_same)

lemma update_fields [simp]:
  "timers (update i f s) = timers s"
  "trace (update i f s) = trace s"
  "listeners (update i f s) = listeners s"
  "next_id (update i f s) = next_id s"
  "uncaught (update i f s) = uncaught s"
  "EJS_pathtodata (update i f s) = EJS_pathtodata s"
  "EJS_emulator (update i f s) = EJS_emulator s"
  by (simp_all add: update_def)


lemma lookup_timers [simp]: "lookup i (s\<lparr>timers := ts\<rparr>) = lookup i s"
  by (simp add: lookup_def)

subsection \<open>The search button\<close>

lemma search_focus_iff:
  "search v l = FocusTarget \<longleftrightarrow>
     (toLowerCase (trim v) = [] \<or> js_includes (toLowerCase l) (toLowerCase (trim v)) \<or>
      js_includes (toLowerCase (trim v)) ''rojo'' \<or>
      js_includes (toLowerCase (trim v)) ''pokemon'' \<or>
      js_includes (toLowerCase (trim v)) ''buscar'')"
  by (simp add: search_def allow_list_def Let_def)

lemma search_hit:
  assumes "searchInput e = Some inp" "gameBtn e = Some g"
    and "search (query w) (innerText g s) = FocusTarget"
  shows "searchBtn_click e w s = Returns (effect (Focus g) s)"
  using assms unfolding search_focus_iff
  by (auto simp: searchBtn_click_def query_def Let_def)

lemma search_miss:
  assumes "searchInput e = Some inp" "gameBtn e = Some g"
    and "search (query w) (innerText g s) = NotFound"
  shows "searchBtn_click e w s =
         Returns ((update inp (setAttribute ''placeholder'' ''No encontrado'') s)
                    \<lparr>timers := timers s @ [(1000, placeholder inp s)]\<rparr>)"
proof -
  from assms(3) have "search (query w) (innerText g s) \<noteq> FocusTarget" by simp
  then show ?thesis
    using assms(1,2) unfolding search_focus_iff
    by (auto simp: searchBtn_click_def query_def Let_def)
qed




subsection \<open>Identities of elements\<close>

lemma elems_append [simp]: "elems (F @ G) = elems F @ elems G"
  by (induction F rule: elems.induct) auto

lemma ids_simps [simp]:
  "ids [] = []"
  "ids (Text x # ns) = ids ns"
  "ids (Elem i t a c ks # ns) = i # ids ks @ ids ns"
  "ids (F @ G) = ids F @ ids G"
  by (simp_all add: ids_def)

lemma modify_append [simp]: "modify i f (F @ G) = modify i f F @ modify i f G"
  by (induction i f F rule: modify.induct) auto

lemma first_match_None_iff: "first_match (has_nid i) F = None \<longleftrightarrow> i \<notin> set (ids F)"
  by (induction "has_nid i" F rule: first_match.induct) (auto split: option.splits)

lemma modify_absent: "i \<notin> set (ids F) \<Longrightarrow> modify i f F = F"
  by (induction i f F rule: modify.induct) auto

lemma attr_edit_simps [simp]:
  "attr_edit (setAttribute k v)" "attr_edit (removeAttribute k)" "attr_edit (set_style p v)"
  by (auto simp: attr_edit_def)

lemma ids_modify_edit: "attr_edit f \<Longrightarrow> ids (modify j f F) = ids F"
proof (induction j f F rule: modify.induct)
  case (3 i f j t a c ks ns)
  from 3(3) obtain a' c' where "f (Elem j t a c ks) = Elem j t a' c' ks"
    unfolding attr_edit_def by blast
  with 3 show ?case by auto
qed simp_all

lemma elems_set_kids:
  "distinct (ids F) \<Longrightarrow>
   mset (elems (modify L (set_kids new) F)) + mset (elems (children_of L F)) =
   mset (elems F) + (if L \<in> set (ids F) then mset (elems new) else {#})"
proof (induction L "set_kids new" F rule: modify.induct)
  case (1 i)
  then show ?case by (simp add: children_of_def)
next
  case (2 i x ns)
  then show ?case by (simp add: children_of_def)
next
  case (3 i j t a c ks ns)
  show ?case
  proof (cases "i = j")
    case True
    with 3(3) have "i \<notin> set (ids ns)" by auto
    then have "modify i (set_kids new) ns = ns" by (rule modify_absent)
    with True show ?thesis by (simp add: children_of_def)
  next
    case False
    show ?thesis
    proof (cases "i \<in> set (ids ks)")
      case True
      with 3(3) have "i \<notin> set (ids ns)" by auto
      then have ns: "modify i (set_kids new) ns = ns" by (rule modify_absent)
      from True obtain n where n: "first_match (has_nid i) ks = Some n"
        using first_match_None_iff [of i ks] by auto
      have "distinct (ids ks)" using 3(3) by simp
      from 3(1) [OF False this] True
      have "mset (elems (modify i (set_kids new) ks)) + mset (elems (children_of i ks)) =
            mset (elems ks) + mset (elems new)" by simp
      moreover have "children_of i (Elem j t a c ks # ns) = children_of i ks"
        using False n by (simp add: children_of_def)
      ultimately show ?thesis using False True ns by simp
    next
      case notin: False
      then have ks: "modify i (set_kids new) ks = ks" by (rule modify_absent)
      have none: "first_match (has_nid i) ks = None"
        using notin by (simp add: first_match_None_iff)
      have "distinct (ids ns)" using 3(3) by simp
      from 3(2) [OF this]
      have "mset (elems (modify i (set_kids new) ns)) + mset (elems (children_of i ns)) =
            mset (elems ns) + (if i \<in> set (ids ns) then mset (elems new) else {#})" .
      moreover have "children_of i (Elem j t a c ks # ns) = children_of i ns"
        using False none by (simp add: children_of_def)
      ultimately show ?thesis using False notin ks by simp
    qed
  qed
qed

lemma elems_appendChild:
  "distinct (ids F) \<Longrightarrow>
   mset (elems (modify j (appendChild n0) F)) =
   mset (elems F) + (if j \<in> set (ids F) then mset (elems [n0]) else {#})"
proof (induction j "appendChild n0" F rule: modify.induct)
  case (3 i j t a c ks ns)
  show ?case
  proof (cases "i = j")
    case True
    with 3(3) have "i \<notin> set (ids ns)" by auto
    then have "modify i (appendChild n0) ns = ns" by (rule modify_absent)
    with True show ?thesis by simp
  next
    case False
    show ?thesis
    proof (cases "i \<in> set (ids ks)")
      case True
      with 3(3) have "i \<notin> set (ids ns)" by auto
      then have ns: "modify i (appendChild n0) ns = ns" by (rule modify_absent)
      have "distinct (ids ks)" using 3(3) by simp
      from 3(1) [OF False this] True
      show ?thesis using False ns by simp
    next
      case notin: False
      then have ks: "modify i (appendChild n0) ks = ks" by (rule modify_absent)
      have "distinct (ids ns)" using 3(3) by simp
      from 3(2) [OF this] show ?thesis using False notin ks by simp
    qed
  qed
qed simp_all

lemma elems_remove:
  "mset (elems (remove_matches P F)) + mset (elems (detach_matches P F)) = mset (elems F)"
proof (induction P F rule: detach_matches.induct)
  case (3 P i t a c ks ns)
  have ks: "mset (elems ks) = mset (elems (remove_matches P ks)) + mset (elems (detach_matches P ks))"
    using 3(1) by simp
  have ns: "mset (elems ns) = mset (elems (remove_matches P ns)) + mset (elems (detach_matches P ns))"
    using 3(2) by simp
  show ?case by (cases "P (Elem i t a c ks)") (simp_all add: ks ns)
qed simp_all

lemma set_ids_build: "set (ids (build n h)) = {n..<n + count_elems h}"
  by (induction n h rule: build.induct) auto

lemma distinct_ids_build: "distinct (ids (build n h))"
  by (induction n h rule: build.induct) (auto simp: set_ids_build)

lemma ser_attrs_Nil [simp]: "ser_attrs a [] = a"
  by (simp add: ser_attrs_def)


subsection \<open>Every step keeps the state well formed\<close>

lemma grows_refl: "grows s s"
  by (simp add: grows_def)

lemma grows_trans: "grows s s1 \<Longrightarrow> grows s1 s2 \<Longrightarrow> grows s s2"
  by (auto simp: grows_def)

lemma mset_ids: "mset (ids F) = image_mset fst (mset (elems F))"
  by (simp add: ids_def)

lemma grows_from_mset:
  assumes eq: "wellformed s \<Longrightarrow> mset (ids (forest s')) = mset (ids (forest s)) + mset new"
    and new: "wellformed s \<Longrightarrow> distinct new \<and> (\<forall>i\<in>set new. next_id s \<le> i \<and> i < next_id s')"
    and le: "next_id s \<le> next_id s'"
  shows "grows s s'"
  unfolding grows_def
proof (intro impI conjI)
  assume wf: "wellformed s"
  note eq = eq [OF wf] and new = new [OF wf]
  have old: "distinct (ids (forest s))" "\<forall>i\<in>set (ids (forest s)). i < next_id s"
    using wf by (auto simp: wellformed_def list_all_iff)
  have "mset (ids (forest s')) = mset (ids (forest s) @ new)" using eq by simp
  then have d: "distinct (ids (forest s')) = distinct (ids (forest s) @ new)"
    by (rule mset_eq_imp_distinct_iff)
  have s: "set (ids (forest s')) = set (ids (forest s)) \<union> set new"
    using eq by (metis mset_append set_append set_mset_mset)
  have "distinct (ids (forest s) @ new)" using old new by fastforce
  with d have "distinct (ids (forest s'))" by simp
  moreover have "\<forall>i\<in>set (ids (forest s')). i < next_id s'"
    using s old new le by fastforce
  ultimately show "wellformed s'" by (simp add: wellformed_def list_all_iff)
  show "set (ids (forest s)) \<subseteq> set (ids (forest s'))" using s by auto
  show "next_id s \<le> next_id s'" by (rule le)
qed

lemma grows_same:
  assumes "forest s' = forest s" "next_id s \<le> next_id s'"
  shows "grows s s'"
  using assms by (intro grows_from_mset [where new = "[]"]) auto

lemma forest_update: "forest (update j f s) = modify j f (forest s)"
  by (simp add: forest_def update_def)

lemma grows_update_edit: "attr_edit f \<Longrightarrow> grows s (update j f s)"
  by (intro grows_from_mset [where new = "[]"]) (auto simp: forest_update ids_modify_edit)

lemma forest_set_innerHTML:
  "forest (set_innerHTML L h s) =
     modify L (set_kids (build (next_id s) h)) (forest s) @ children_of L (forest s)"
  by (simp add: forest_def set_innerHTML_def Let_def children_of_def lookup_def)

lemma grows_set_innerHTML: "grows s (set_innerHTML L h s)"
proof (rule grows_from_mset)
  let ?new = "build (next_id s) h"
  let ?ids = "if L \<in> set (ids (forest s)) then ids ?new else []"
  show "next_id s \<le> next_id (set_innerHTML L h s)"
    by (simp add: set_innerHTML_def Let_def)
  show "distinct ?ids \<and>
        (\<forall>i\<in>set ?ids. next_id s \<le> i \<and> i < next_id (set_innerHTML L h s))"
    by (auto simp: distinct_ids_build set_ids_build set_innerHTML_def Let_def)
  assume "wellformed s"
  then have "distinct (ids (forest s))" by (simp add: wellformed_def)
  from elems_set_kids [OF this, of L ?new]
  have "image_mset fst (mset (elems (modify L (set_kids ?new) (forest s))) +
          mset (elems (children_of L (forest s)))) =
        image_mset fst (mset (elems (forest s)) +
          (if L \<in> set (ids (forest s)) then mset (elems ?new) else {#}))"
    by simp
  then show "mset (ids (forest (set_innerHTML L h s))) = mset (ids (forest s)) + mset ?ids"
    by (simp add: forest_set_innerHTML mset_ids)
qed

lemma grows_appendChild:
  assumes "distinct (ids [n0])" "\<forall>i\<in>set (ids [n0]). next_id s \<le> i \<and> i < k" "next_id s \<le> k"
  shows "grows s (update j (appendChild n0) (s\<lparr>next_id := k\<rparr>))"
proof (rule grows_from_mset)
  let ?ids = "if j \<in> set (ids (forest s)) then ids [n0] else []"
  show "next_id s \<le> next_id (update j (appendChild n0) (s\<lparr>next_id := k\<rparr>))"
    using assms by (simp add: update_def)
  show "distinct ?ids \<and>
        (\<forall>i\<in>set ?ids. next_id s \<le> i \<and> i < next_id (update j (appendChild n0) (s\<lparr>next_id := k\<rparr>)))"
    using assms by (auto simp: update_def)
  assume "wellformed s"
  then have "distinct (ids (forest s))" by (simp add: wellformed_def)
  from elems_appendChild [OF this, of j n0]
  have "image_mset fst (mset (elems (modify j (appendChild n0) (forest s)))) =
        image_mset fst (mset (elems (forest s)) +
          (if j \<in> set (ids (forest s)) then mset (elems [n0]) else {#}))"
    by simp
  then show "mset (ids (forest (update j (appendChild n0) (s\<lparr>next_id := k\<rparr>)))) =
        mset (ids (forest s)) + mset ?ids"
    by (simp add: forest_update mset_ids forest_def update_def)
qed

lemma grows_remove_loader_scripts: "grows s (remove_loader_scripts s)"
proof (rule grows_from_mset [where new = "[]"])
  let ?P = "script_src_prefix (pathtodata s @ ''loader.js'') (pathtodata s @ ''src/loader.js'')"
  have "image_mset fst (mset (elems (remove_matches ?P (doc s))) +
          mset (elems (detach_matches ?P (doc s)))) = image_mset fst (mset (elems (doc s)))"
    by (simp only: elems_remove)
  then show "mset (ids (forest (remove_loader_scripts s))) = mset (ids (forest s)) + mset []"
    by (simp add: forest_def remove_loader_scripts_def Let_def mset_ids)
qed (simp_all add: remove_loader_scripts_def Let_def)

lemma grows_load_loader: "grows s (load_loader g s)"
  by (rule grows_from_mset [where new = "[next_id s]"])
     (simp_all add: load_loader_def Let_def forest_def)

lemma grows_fields:
  "grows s (effect x s)"
  "grows s (s\<lparr>timers := ts\<rparr>)"
  "grows s (s\<lparr>listeners := ls\<rparr>)"
  "grows s (s\<lparr>uncaught := us\<rparr>)"
  "grows s (s\<lparr>EJS_emulator := em\<rparr>)"
  "grows s (s\<lparr>fullscreenElement := fs\<rparr>)"
  "grows s (configure r t s)"
  "grows s (bind_controls n s)"
  "grows s (shutdown s)"
  by (rule grows_same; simp add: forest_def effect_def configure_def bind_controls_def shutdown_def
        split: emulator.split)+

lemma growsR:
  assumes "\<And>x. grows x (f x)" "grows s t"
  shows "grows s (f t)"
  using assms grows_trans by blast

lemma growsR_update: "attr_edit f \<Longrightarrow> grows s t \<Longrightarrow> grows s (update j f t)"
  using grows_update_edit grows_trans by blast

lemma growsR_set_innerHTML: "grows s t \<Longrightarrow> grows s (set_innerHTML L h t)"
  using grows_set_innerHTML grows_trans by blast

lemma growsR_fields:
  "grows s t \<Longrightarrow> grows s (effect x t)"
  "grows s t \<Longrightarrow> grows s (t\<lparr>timers := ts\<rparr>)"
  "grows s t \<Longrightarrow> grows s (t\<lparr>listeners := ls\<rparr>)"
  "grows s t \<Longrightarrow> grows s (t\<lparr>uncaught := us\<rparr>)"
  "grows s t \<Longrightarrow> grows s (t\<lparr>EJS_emulator := em\<rparr>)"
  "grows s t \<Longrightarrow> grows s (t\<lparr>fullscreenElement := fs\<rparr>)"
  "grows s t \<Longrightarrow> grows s (configure r tt t)"
  "grows s t \<Longrightarrow> grows s (bind_controls n t)"
  "grows s t \<Longrightarrow> grows s (shutdown t)"
  "grows s t \<Longrightarrow> grows s (load_loader g t)"
  "grows s t \<Longrightarrow> grows s (remove_loader_scripts t)"
  by (erule grows_trans, rule grows_fields grows_load_loader grows_remove_loader_scripts)+

lemma growsR_enterGameUIState: "grows s t \<Longrightarrow> grows s (enterGameUIState e t)"
  unfolding enterGameUIState_def Let_def
  by (cases "controlsSection e"; cases "titleLogo e") (simp_all add: growsR_update)

lemma next_id_enterGameUIState [simp]: "next_id (enterGameUIState e s) = next_id s"
  by (simp add: enterGameUIState_def Let_def split: option.split)

lemma set_innerHTML_empty_next_id:
  "set_innerHTML L [] (s\<lparr>next_id := k\<rparr>) = (set_innerHTML L [] s)\<lparr>next_id := k\<rparr>"
  by (simp add: set_innerHTML_def Let_def lookup_def)

lemma next_id_set_innerHTML [simp]:
  "next_id (set_innerHTML L h s) = next_id s + count_elems h"
  by (simp add: set_innerHTML_def Let_def)

lemma ids_wrapper:
  "ids [gameContainerWrapper n] = [n, n + 4, n + 1, n + 2, n + 3]"
  by (simp add: gameContainerWrapper_def gameDiv_def menuBar_def backBtn_def fullBtn_def)

lemma grows_show_session: "grows s (show_session e s)"
proof -
  let ?s1 = "enterGameUIState e s"
  let ?s2 = "set_innerHTML (launchSection e) [] ?s1"
  have eq: "show_session e s =
        update (launchSection e) (appendChild (gameContainerWrapper (next_id s)))
          (?s2\<lparr>next_id := next_id s + 5\<rparr>)"
    by (simp add: show_session_def Let_def set_innerHTML_empty_next_id)
  have 1: "grows s ?s2"
    by (intro growsR_set_innerHTML growsR_enterGameUIState grows_refl)
  have 2: "grows ?s2 (update (launchSection e) (appendChild (gameContainerWrapper (next_id s)))
          (?s2\<lparr>next_id := next_id s + 5\<rparr>))"
    by (rule grows_appendChild) (simp_all add: ids_wrapper)
  show ?thesis
    unfolding eq by (rule grows_trans [OF 1 2])
qed

lemma growsR_show_session: "grows s t \<Longrightarrow> grows s (show_session e t)"
  using grows_show_session grows_trans by blast

lemma growsR_openEmulator: "grows s t \<Longrightarrow> grows s (settle (openEmulator e a t))"
  unfolding openEmulator_def settle_def Let_def
  by (cases "resolve a t") (simp_all add: growsR_fields growsR_show_session)

lemma growsR_restoreMenuUIState: "grows s t \<Longrightarrow> grows s (restoreMenuUIState e t)"
proof -
  assume t: "grows s t"
  let ?s1 = "set_innerHTML (launchSection e) (originalLaunchHTML e) t"
  let ?s2 = "case titleLogo e of None \<Rightarrow> ?s1
      | Some l \<Rightarrow> if originalLogoStyle e \<noteq> []
                  then update l (setAttribute ''style'' (originalLogoStyle e)) ?s1
                  else update l (removeAttribute ''style'') ?s1"
  let ?s3 = "case getElementById ''gameBtn'' (doc ?s2) of None \<Rightarrow> ?s2
      | Some b \<Rightarrow> ?s2\<lparr>listeners := listeners ?s2 @
           [(nid b, ''click'', RestoredClick), (nid b, ''keypress'', RestoredKeypress)]\<rparr>"
  have 1: "grows s ?s1" using t by (rule growsR_set_innerHTML)
  have 2: "grows s ?s2"
    by (cases "titleLogo e") (simp_all add: 1 growsR_update)
  have 3: "grows s ?s3"
    by (cases "getElementById ''gameBtn'' (doc ?s2)") (simp_all add: 2 growsR_fields)
  have 4: "grows s (case controlsSection e of None \<Rightarrow> ?s3
      | Some c \<Rightarrow> update c (set_style ''display'' []) ?s3)"
    by (cases "controlsSection e") (simp_all add: 3 growsR_update)
  then show ?thesis
    by (simp add: restoreMenuUIState_def Let_def)
qed

lemma growsR_backBtn_click: "grows s t \<Longrightarrow> grows s (settle (backBtn_click e w t))"
  by (simp add: backBtn_click_def settle_def Let_def growsR_fields growsR_restoreMenuUIState)

lemma growsR_fullBtn_click: "grows s t \<Longrightarrow> grows s (settle (fullBtn_click wr w t))"
  by (simp add: fullBtn_click_def settle_def growsR_fields)

lemma growsR_script_onerror: "grows s t \<Longrightarrow> grows s (settle (script_onerror g sc t))"
proof -
  assume t: "grows s t"
  let ?err = "Elem (next_id t) ''div'' [] [(''color'', ''white''), (''padding'', ''10px'')] [Text load_error_text]"
  have "grows t (update g (appendChild ?err) (t\<lparr>next_id := next_id t + 1\<rparr>))"
    by (rule grows_appendChild) simp_all
  with t have "grows s (update g (appendChild ?err) (t\<lparr>next_id := next_id t + 1\<rparr>))"
    by (rule grows_trans)
  then show ?thesis
    by (simp add: script_onerror_def settle_def Let_def growsR_fields)
qed

lemma growsR_searchBtn_click: "grows s t \<Longrightarrow> grows s (settle (searchBtn_click e w t))"
  unfolding searchBtn_click_def settle_def Let_def
  by (cases "searchInput e"; cases "gameBtn e") (simp_all add: growsR_fields growsR_update)

lemma growsR_timeout: "grows s t \<Longrightarrow> grows s (timeout e t)"
  unfolding timeout_def
  by (cases "timers t"; cases "searchInput e")
     (simp_all add: growsR_fields growsR_update split: prod.split)

lemma growsR_fire: "grows s t \<Longrightarrow> grows s (settle (fire e h w t))"
proof (cases h)
  case (CardKeypress c)
  assume t: "grows s t"
  have "grows s (settle (Returns t))" using t by (simp add: settle_def)
  then show ?thesis using CardKeypress t by (simp add: growsR_openEmulator growsR_fields)
next
  case RestoredKeypress
  assume t: "grows s t"
  have "grows s (settle (Returns t))" using t by (simp add: settle_def)
  then show ?thesis using RestoredKeypress t by (simp add: growsR_openEmulator growsR_fields)
qed (simp_all add: growsR_searchBtn_click growsR_openEmulator growsR_backBtn_click growsR_fullBtn_click
      growsR_script_onerror)

lemma growsR_foldl_fire: "grows s t \<Longrightarrow> grows s (foldl (\<lambda>s' h. settle (fire e h w s')) t hs)"
  by (induction hs arbitrary: t) (simp_all add: growsR_fire)

lemma growsR_step: "grows s t \<Longrightarrow> grows s (step e t inp)"
  by (cases inp) (simp_all add: dispatch_def growsR_foldl_fire growsR_timeout growsR_fields)

lemma growsR_run: "grows s t \<Longrightarrow> grows s (run e t ins)"
  unfolding run_def by (induction ins arbitrary: t) (simp_all add: growsR_step)

subsection \<open>What an update leaves alone\<close>

lemma lookup_forest: "lookup i s = first_match (has_nid i) (forest s)"
  by (simp add: lookup_def forest_def)

lemma lookup_None_iff: "lookup i s = None \<longleftrightarrow> i \<notin> set (ids (forest s))"
  by (simp add: lookup_forest first_match_None_iff)

lemma first_match_in_ids: "first_match P F = Some n \<Longrightarrow> nid n \<in> set (ids F)"
  by (induction P F rule: first_match.induct) (auto split: if_splits option.splits)

lemma first_match_Elem: "first_match P F = Some n \<Longrightarrow> \<exists>i t a c ks. n = Elem i t a c ks"
  by (induction P F rule: first_match.induct) (auto split: if_splits option.splits)

lemma kids_edit: "attr_edit g \<Longrightarrow> has_nid i n \<Longrightarrow> kids (g n) = kids n \<and> has_nid i (g n)"
proof -
  assume g: "attr_edit g" and n: "has_nid i n"
  from n obtain t a c ks where n': "n = Elem i t a c ks" by (cases n) auto
  from g obtain a' c' where "g (Elem i t a c ks) = Elem i t a' c' ks"
    unfolding attr_edit_def by blast
  with n' show ?thesis by simp
qed


text \<open>Editing attributes of \<open>j\<close> leaves the attributes of every other element alone.\<close>

lemma first_match_modify_other:
  "attr_edit g \<Longrightarrow> i \<noteq> j \<Longrightarrow>
   map_option (getAttribute k) (first_match (has_nid i) (modify j g F)) =
   map_option (getAttribute k) (first_match (has_nid i) F)"
proof (induction j g F rule: modify.induct)
  case (1 j g)
  then show ?case by simp
next
  case (2 j g x ns)
  then show ?case by simp
next
  case (3 j g k' t a c ks ns)
  note g = "3.prems"(1) and ij = "3.prems"(2)
  from g obtain a' c' where gk: "g (Elem k' t a c ks) = Elem k' t a' c' ks"
    unfolding attr_edit_def by blast
  have none: "first_match (has_nid i) (modify j g ks) = None \<longleftrightarrow> first_match (has_nid i) ks = None"
    using g by (simp add: first_match_None_iff ids_modify_edit)
  show ?case
  proof (cases "j = k'")
    case True
    with ij gk "3.IH"(2) [OF g ij] show ?thesis
      by (auto split: option.splits)
  next
    case False
    note ih = "3.IH"(1) [OF False g ij] "3.IH"(2) [OF g ij]
    show ?thesis
    proof (cases "i = k'")
      case True
      with False show ?thesis by simp
    next
      case ik: False
      show ?thesis
      proof (cases "first_match (has_nid i) ks")
        case None
        with none have "first_match (has_nid i) (modify j g ks) = None" by simp
        with None ih False ik show ?thesis by simp
      next
        case (Some m)
        with none obtain m' where m': "first_match (has_nid i) (modify j g ks) = Some m'"
          by auto
        with Some ih False ik show ?thesis by simp
      qed
    qed
  qed
qed

lemma attribute_update_other:
  "attr_edit g \<Longrightarrow> i \<noteq> j \<Longrightarrow> attribute i k (update j g s) = attribute i k s"
  using first_match_modify_other [of g i j k "forest s"]
  unfolding attribute_def lookup_forest forest_update
  by (cases "first_match (has_nid i) (modify j g (forest s))";
      cases "first_match (has_nid i) (forest s)") auto

lemma getAttribute_set_style:
  "k \<noteq> ''style'' \<Longrightarrow> getAttribute k (set_style p v n) = getAttribute k n"
  by (cases n) (auto simp: ser_attrs_def map_of_put)

lemma attribute_set_style:
  assumes "k \<noteq> ''style''"
  shows "attribute i k (update j (set_style p v) s) = attribute i k s"
proof (cases "i = j")
  case True
  have "lookup i (update i (set_style p v) s) = map_option (set_style p v) (lookup i s)"
    by (rule lookup_update_same) (simp add: kids_edit)
  with True assms show ?thesis
    by (auto simp: attribute_def getAttribute_set_style split: option.splits)
next
  case False
  then show ?thesis by (simp add: attribute_update_other)
qed

subsection \<open>Restoring the menu\<close>

lemma map_of_del: "map_of (del k a) k' = (if k' = k then None else map_of a k')"
  by (induction a) (auto simp: del_def)



lemma lookup_listeners [simp]: "lookup i (s\<lparr>listeners := ls\<rparr>) = lookup i s"
  by (simp add: lookup_def)





lemma first_match_by_nid:
  "distinct (ids F) \<Longrightarrow> first_match P F = Some n \<Longrightarrow> first_match (has_nid (nid n)) F = Some n"
proof (induction P F rule: first_match.induct)
  case (1 P)
  then show ?case by simp
next
  case (2 P x ns)
  then show ?case by simp
next
  case (3 P i t a c ks ns)
  show ?case
  proof (cases "P (Elem i t a c ks)")
    case True
    with "3.prems" show ?thesis by auto
  next
    case False
    show ?thesis
    proof (cases "first_match P ks")
      case None
      with False "3.prems" have ns: "first_match P ns = Some n" by simp
      then have "nid n \<in> set (ids ns)" by (rule first_match_in_ids)
      with "3.prems"(1) have "nid n \<noteq> i" "nid n \<notin> set (ids ks)" by auto
      then have "first_match (has_nid (nid n)) ks = None" "nid n \<noteq> i"
        by (simp_all add: first_match_None_iff)
      moreover have "first_match (has_nid (nid n)) ns = Some n"
        using "3.IH"(2) [OF False None] "3.prems"(1) ns by simp
      ultimately show ?thesis by simp
    next
      case (Some m)
      with False "3.prems" have mn: "m = n" by simp
      with Some have "nid n \<in> set (ids ks)" using first_match_in_ids by blast
      with "3.prems"(1) have "nid n \<noteq> i" by auto
      moreover have "first_match (has_nid (nid n)) ks = Some n"
        using "3.IH"(1) [OF False] "3.prems"(1) Some mn by simp
      ultimately show ?thesis by simp
    qed
  qed
qed

lemma wf_loaded: "wellformed (loaded page)"
  by (simp add: wellformed_def forest_def loaded_def distinct_ids_build list_all_iff set_ids_build)

lemma init_facts:
  assumes "init page = Inr (e, s0)"
  shows "wellformed s0"
    and "launchSection e \<in> set (ids (forest s0))"
    and "innerHTML (launchSection e) s0 = originalLaunchHTML e"
    and "\<And>l. titleLogo e = Some l \<Longrightarrow> l \<in> set (ids (forest s0))"
    and "\<And>l. titleLogo e = Some l \<Longrightarrow>
           originalLogoStyle e = (case attribute l ''style'' s0 of None \<Rightarrow> [] | Some v \<Rightarrow> v)"
    and "\<And>c. controlsSection e = Some c \<Longrightarrow> c \<in> set (ids (forest s0))"
proof -
  let ?d = "build 0 page"
  from assms obtain launch sb where
    launch: "getElementById ''launch'' ?d = Some launch" and
    sb: "getElementById ''searchBtn'' ?d = Some sb"
    by (auto simp: init_def Let_def loaded_def split: option.splits)
  let ?logo = "getElementById ''title-logo'' ?d"
  from assms launch sb have
    e: "launchSection e = nid launch" "titleLogo e = map_option nid ?logo"
       "controlsSection e = map_option nid (first_match (has_classes [''controls'']) ?d)"
       "originalLaunchHTML e = map to_html (kids launch)"
       "originalLogoStyle e =
          (case ?logo of None \<Rightarrow> [] | Some l \<Rightarrow> (case getAttribute ''style'' l of None \<Rightarrow> [] | Some v \<Rightarrow> v))"
    and s0: "forest s0 = ?d" "next_id s0 = count_elems page"
    by (auto simp: init_def Let_def loaded_def forest_def)
  have d: "distinct (ids ?d)" by (rule distinct_ids_build)
  show "wellformed s0"
    using s0 by (simp add: wellformed_def distinct_ids_build list_all_iff set_ids_build)
  show "launchSection e \<in> set (ids (forest s0))"
    using launch e(1) s0 first_match_in_ids unfolding getElementById_def by fastforce
  have "lookup (nid launch) s0 = Some launch"
    using first_match_by_nid [OF d] launch s0 unfolding getElementById_def lookup_forest by simp
  then show "innerHTML (launchSection e) s0 = originalLaunchHTML e"
    using e by (simp add: innerHTML_def)
  show "l \<in> set (ids (forest s0))" if "titleLogo e = Some l" for l
    using that e(2) s0 first_match_in_ids unfolding getElementById_def by fastforce
  show "c \<in> set (ids (forest s0))" if "controlsSection e = Some c" for c
    using that e(3) s0 first_match_in_ids by fastforce
  show "originalLogoStyle e = (case attribute l ''style'' s0 of None \<Rightarrow> [] | Some v \<Rightarrow> v)"
    if "titleLogo e = Some l" for l
  proof -
    from that e(2) obtain n where n: "?logo = Some n" "nid n = l" by auto
    then have "lookup l s0 = Some n"
      using first_match_by_nid [OF d] s0 unfolding getElementById_def lookup_forest by auto
    with n e(5) show ?thesis by (simp add: attribute_def)
  qed
qed

lemma handles_live_ext: "handles_live e s \<Longrightarrow> grows s s' \<Longrightarrow> handles_live e s'"
  unfolding handles_live_def grows_def by blast

lemma handles_live_init: "init page = Inr (e, s0) \<Longrightarrow> handles_live e s0"
  unfolding handles_live_def using init_facts [of page e s0] by blast

lemma handles_live_run: "init page = Inr (e, s0) \<Longrightarrow> handles_live e (run e s0 ins)"
  using handles_live_ext [OF handles_live_init growsR_run [OF grows_refl]] by blast





subsection \<open>Leaving a game\<close>

lemma restore_fields [simp]:
  "trace (restoreMenuUIState e s) = trace s"
  "uncaught (restoreMenuUIState e s) = uncaught s"
  "timers (restoreMenuUIState e s) = timers s"
  "EJS_emulator (restoreMenuUIState e s) = EJS_emulator s"
  "EJS_gameUrl (restoreMenuUIState e s) = EJS_gameUrl s"
  "EJS_pathtodata (restoreMenuUIState e s) = EJS_pathtodata s"
  by (simp_all add: restoreMenuUIState_def Let_def set_innerHTML_def update_def
        split: option.split)

lemma remove_fields [simp]:
  "trace (remove_loader_scripts s) = trace s"
  "uncaught (remove_loader_scripts s) = uncaught s"
  "listeners (remove_loader_scripts s) = listeners s"
  "next_id (remove_loader_scripts s) = next_id s"
  by (simp_all add: remove_loader_scripts_def Let_def)

lemma shutdown_fields [simp]:
  "doc (shutdown s) = doc s"
  "detached (shutdown s) = detached s"
  "uncaught (shutdown s) = uncaught s"
  "listeners (shutdown s) = listeners s"
  "next_id (shutdown s) = next_id s"
  "EJS_pathtodata (shutdown s) = EJS_pathtodata s"
  by (simp_all add: shutdown_def effect_def split: emulator.split)

lemma effect_fields [simp]:
  "doc (effect x s) = doc s"
  "detached (effect x s) = detached s"
  "uncaught (effect x s) = uncaught s"
  "listeners (effect x s) = listeners s"
  "next_id (effect x s) = next_id s"
  "EJS_pathtodata (effect x s) = EJS_pathtodata s"
  "EJS_emulator (effect x s) = EJS_emulator s"
  "trace (effect x s) = trace s @ [x]"
  by (simp_all add: effect_def)

lemma all_matches_remove: "root_only P \<Longrightarrow> all_matches P (remove_matches P F) = []"
proof (induction P F rule: remove_matches.induct)
  case (3 P i t a c ks ns)
  then have "P (Elem i t a c (remove_matches P ks)) = P (Elem i t a c ks)"
    unfolding root_only_def by blast
  with 3 show ?case by simp
qed simp_all

lemma root_only_script: "root_only (script_src_prefix p q)"
  by (simp add: root_only_def)

lemma dom_eq_update: "dom_eq s t \<Longrightarrow> dom_eq (update i f s) (update i f t)"
  by (simp add: dom_eq_def update_def)

lemma dom_eq_set_innerHTML: "dom_eq s t \<Longrightarrow> dom_eq (set_innerHTML L h s) (set_innerHTML L h t)"
  by (simp add: dom_eq_def set_innerHTML_def Let_def lookup_def)

lemma dom_eq_remove: "dom_eq s t \<Longrightarrow> dom_eq (remove_loader_scripts s) (remove_loader_scripts t)"
  by (simp add: dom_eq_def remove_loader_scripts_def Let_def pathtodata_def)

lemma dom_eq_listeners:
  "dom_eq s t \<Longrightarrow> dom_eq (s\<lparr>listeners := listeners s @ ls\<rparr>) (t\<lparr>listeners := listeners t @ ls\<rparr>)"
  by (simp add: dom_eq_def)

lemma dom_eq_restore:
  assumes "dom_eq s t"
  shows "dom_eq (restoreMenuUIState e s) (restoreMenuUIState e t)"
proof -
  let ?s1 = "set_innerHTML (launchSection e) (originalLaunchHTML e) s"
  let ?t1 = "set_innerHTML (launchSection e) (originalLaunchHTML e) t"
  let ?s2 = "case titleLogo e of None \<Rightarrow> ?s1
      | Some l \<Rightarrow> if originalLogoStyle e \<noteq> []
                  then update l (setAttribute ''style'' (originalLogoStyle e)) ?s1
                  else update l (removeAttribute ''style'') ?s1"
  let ?t2 = "case titleLogo e of None \<Rightarrow> ?t1
      | Some l \<Rightarrow> if originalLogoStyle e \<noteq> []
                  then update l (setAttribute ''style'' (originalLogoStyle e)) ?t1
                  else update l (removeAttribute ''style'') ?t1"
  let ?s3 = "case getElementById ''gameBtn'' (doc ?s2) of None \<Rightarrow> ?s2
      | Some b \<Rightarrow> ?s2\<lparr>listeners := listeners ?s2 @
           [(nid b, ''click'', RestoredClick), (nid b, ''keypress'', RestoredKeypress)]\<rparr>"
  let ?t3 = "case getElementById ''gameBtn'' (doc ?t2) of None \<Rightarrow> ?t2
      | Some b \<Rightarrow> ?t2\<lparr>listeners := listeners ?t2 @
           [(nid b, ''click'', RestoredClick), (nid b, ''keypress'', RestoredKeypress)]\<rparr>"
  have 1: "dom_eq ?s1 ?t1" using assms by (rule dom_eq_set_innerHTML)
  have 2: "dom_eq ?s2 ?t2"
    by (cases "titleLogo e") (simp_all add: 1 dom_eq_update)
  then have d: "doc ?s2 = doc ?t2" by (simp add: dom_eq_def)
  have 3: "dom_eq ?s3 ?t3"
    unfolding d by (cases "getElementById ''gameBtn'' (doc ?t2)") (simp_all add: 2 dom_eq_listeners)
  have 4: "dom_eq (case controlsSection e of None \<Rightarrow> ?s3
                   | Some c \<Rightarrow> update c (set_style ''display'' []) ?s3)
                  (case controlsSection e of None \<Rightarrow> ?t3
                   | Some c \<Rightarrow> update c (set_style ''display'' []) ?t3)"
    by (cases "controlsSection e") (simp_all add: 3 dom_eq_update)
  have s: "restoreMenuUIState e s = (case controlsSection e of None \<Rightarrow> ?s3
                   | Some c \<Rightarrow> update c (set_style ''display'' []) ?s3)"
    by (simp add: restoreMenuUIState_def Let_def)
  have t: "restoreMenuUIState e t = (case controlsSection e of None \<Rightarrow> ?t3
                   | Some c \<Rightarrow> update c (set_style ''display'' []) ?t3)"
    by (simp add: restoreMenuUIState_def Let_def)
  show ?thesis unfolding s t by (rule 4)
qed

lemma trace_shutdown:
  "trace (shutdown (effect x s)) = trace s @ x # hook_trace (EJS_emulator s)"
  by (simp add: shutdown_def hook_trace_def effect_def split: emulator.split)

lemma dom_eq_shutdown: "dom_eq (shutdown (effect x s)) s"
  by (simp add: dom_eq_def)

text \<open>
  C8: a confirmed exit returns without an exception. The engine's \<open>exit\<close> is called exactly
  when \<open>window.EJS_emulator\<close> has such a function, and a failure of it is logged as a
  warning. The document, the listeners and the detached nodes after the exit are the same
  whatever the engine offered or did. The script elements whose \<open>src\<close> starts with the data
  path followed by \<open>loader.js\<close> or \<open>src/loader.js\<close> leave the document before the menu is
  restored.
\<close>

theorem best_effort_shutdown:
  "answer w \<longrightarrow>
     (\<exists>s'. backBtn_click e w s = Returns s' \<and>
        trace s' = trace s @ Confirm confirmText # hook_trace (EJS_emulator s) \<and>
        uncaught s' = uncaught s \<and>
        dom_eq s' (restoreMenuUIState e (remove_loader_scripts s)) \<and>
        dom_eq (restoreMenuUIState e (remove_loader_scripts (s\<lparr>EJS_emulator := em\<rparr>)))
               (restoreMenuUIState e (remove_loader_scripts s)) \<and>
        doc (remove_loader_scripts s) = remove_matches (loader_script s) (doc s) \<and>
        all_matches (loader_script s) (doc (remove_loader_scripts s)) = [])"
proof
  assume yes: "answer w"
  let ?s' = "restoreMenuUIState e (remove_loader_scripts (shutdown (effect (Confirm confirmText) s)))"
  have 1: "backBtn_click e w s = Returns ?s'"
    using yes by (simp add: backBtn_click_def Let_def)
  have 2: "trace ?s' = trace s @ Confirm confirmText # hook_trace (EJS_emulator s)"
    by (simp add: trace_shutdown)
  have 3: "uncaught ?s' = uncaught s" by simp
  have 4: "dom_eq ?s' (restoreMenuUIState e (remove_loader_scripts s))"
    by (intro dom_eq_restore dom_eq_remove dom_eq_shutdown)
  have 5: "dom_eq (restoreMenuUIState e (remove_loader_scripts (s\<lparr>EJS_emulator := em\<rparr>)))
               (restoreMenuUIState e (remove_loader_scripts s))"
    by (intro dom_eq_restore dom_eq_remove) (simp add: dom_eq_def)
  have 6: "doc (remove_loader_scripts s) = remove_matches (loader_script s) (doc s)"
    by (simp add: remove_loader_scripts_def Let_def loader_script_def)
  have 7: "all_matches (loader_script s) (doc (remove_loader_scripts s)) = []"
    unfolding 6 by (rule all_matches_remove) (simp add: loader_script_def root_only_script)
  show "\<exists>s'. backBtn_click e w s = Returns s' \<and>
        trace s' = trace s @ Confirm confirmText # hook_trace (EJS_emulator s) \<and>
        uncaught s' = uncaught s \<and>
        dom_eq s' (restoreMenuUIState e (remove_loader_scripts s)) \<and>
        dom_eq (restoreMenuUIState e (remove_loader_scripts (s\<lparr>EJS_emulator := em\<rparr>)))
               (restoreMenuUIState e (remove_loader_scripts s)) \<and>
        doc (remove_loader_scripts s) = remove_matches (loader_script s) (doc s) \<and>
        all_matches (loader_script s) (doc (remove_loader_scripts s)) = []"
    using 1 2 3 4 5 6 7 by blast
qed


subsection \<open>Failure to load the engine\<close>





subsection \<open>Timers\<close>

lemma lookup_update_present:
  "attr_edit f \<Longrightarrow> lookup i s \<noteq> None \<Longrightarrow> lookup i (update j f s) \<noteq> None"
  by (simp add: lookup_None_iff forest_update ids_modify_edit)

lemma timeout_last:
  assumes inp: "searchInput e = Some inp"
  shows "timers s = ts @ [(d, ph)] \<Longrightarrow> lookup inp s \<noteq> None \<Longrightarrow>
         placeholder inp (((timeout e) ^^ Suc (length ts)) s) = ph \<and>
         timers (((timeout e) ^^ Suc (length ts)) s) = []"
proof (induction ts arbitrary: s)
  case Nil
  then have "timeout e s = update inp (setAttribute ''placeholder'' ph) (s\<lparr>timers := []\<rparr>)"
    using inp by (simp add: timeout_def)
  with Nil show ?case by (simp add: placeholder_update)
next
  case (Cons t ts)
  obtain d' ph' where t: "t = (d', ph')" by (cases t)
  let ?s1 = "update inp (setAttribute ''placeholder'' ph') (s\<lparr>timers := ts @ [(d, ph)]\<rparr>)"
  have step: "timeout e s = ?s1"
    using Cons.prems(1) inp t by (simp add: timeout_def)
  have "timers ?s1 = ts @ [(d, ph)]" by simp
  moreover have "lookup inp ?s1 \<noteq> None"
    using Cons.prems(2) by (intro lookup_update_present) simp_all
  ultimately have "placeholder inp (((timeout e) ^^ Suc (length ts)) ?s1) = ph \<and>
         timers (((timeout e) ^^ Suc (length ts)) ?s1) = []"
    by (rule Cons.IH)
  then show ?case
    by (simp add: step [symmetric] funpow_swap1)
qed

text \<open>
  C10 (as amended): after a search that finds nothing and a following search that finds the
  target, made before the timer of the first has fired, the placeholder shows
  "No encontrado" until the timers fire; once all pending timers have fired it is the text
  that was shown when the first of the two searches was made.
\<close>

theorem placeholder_after_pair:
  "searchInput e = Some inp \<and> gameBtn e = Some g \<and> lookup inp s \<noteq> None \<and>
   search (query w1) (innerText g s) = NotFound \<and> searchBtn_click e w1 s = Returns s1 \<and>
   search (query w2) (innerText g s1) = FocusTarget \<and> searchBtn_click e w2 s1 = Returns s2 \<longrightarrow>
     placeholder inp s1 = ''No encontrado'' \<and>
     placeholder inp s2 = ''No encontrado'' \<and>
     timers s2 = timers s @ [(1000, placeholder inp s)] \<and>
     placeholder inp (settle_timers e s2) = placeholder inp s \<and>
     timers (settle_timers e s2) = []"
proof (intro impI, elim conjE)
  assume e: "searchInput e = Some inp" "gameBtn e = Some g"
    and inp: "lookup inp s \<noteq> None"
    and nf: "search (query w1) (innerText g s) = NotFound"
    and r1: "searchBtn_click e w1 s = Returns s1"
    and ft: "search (query w2) (innerText g s1) = FocusTarget"
    and r2: "searchBtn_click e w2 s1 = Returns s2"
  let ?s1 = "update inp (setAttribute ''placeholder'' ''No encontrado'') s"
  from search_miss [OF e nf] r1
  have s1eq: "s1 = ?s1\<lparr>timers := timers s @ [(1000, placeholder inp s)]\<rparr>"
    by simp
  have s1: "timers s1 = timers s @ [(1000, placeholder inp s)]"
    "placeholder inp s1 = ''No encontrado''"
    unfolding s1eq using inp
    by (simp_all add: placeholder_def attribute_def
        placeholder_update [unfolded placeholder_def attribute_def])
  have l1: "lookup inp s1 \<noteq> None"
    unfolding s1eq using inp by (simp add: lookup_update_present)
  from search_hit [OF e ft] r2
  have s2: "s2 = effect (Focus g) s1" by simp
  have t2: "timers s2 = timers s @ [(1000, placeholder inp s)]"
    using s1 s2 by (simp add: effect_def)
  have l2: "lookup inp s2 \<noteq> None"
    using l1 s2 by (simp add: lookup_def effect_def)
  have p2: "placeholder inp s2 = ''No encontrado''"
    using s1(2) s2 by (simp add: placeholder_def attribute_def lookup_def effect_def)
  from timeout_last [OF e(1) t2 l2]
  have "placeholder inp (settle_timers e s2) = placeholder inp s \<and>
        timers (settle_timers e s2) = []"
    by (simp add: settle_timers_def t2)
  with s1 p2 t2 show "placeholder inp s1 = ''No encontrado'' \<and>
     placeholder inp s2 = ''No encontrado'' \<and>
     timers s2 = timers s @ [(1000, placeholder inp s)] \<and>
     placeholder inp (settle_timers e s2) = placeholder inp s \<and>
     timers (settle_timers e s2) = []"
    by simp
qed

subsection \<open>Configuring the engine\<close>

lemma map_of_elems: "map_of (elems F) i = map_option root (first_match (has_nid i) F)"
proof (induction "has_nid i" F rule: first_match.induct)
  case (3 j t a c ks ns)
  then show ?case
    by (cases "first_match (has_nid i) ks") (auto simp: map_add_def split: option.splits)
qed simp_all

lemma getAttribute_root:
  "has_nid i n \<Longrightarrow> getAttribute k n = map_of (ser_attrs (fst (snd (root n))) (snd (snd (root n)))) k"
  by (cases n) auto

lemma attribute_elems:
  "attribute i k s =
     (case map_of (elems (forest s)) i of
        None \<Rightarrow> None
      | Some r \<Rightarrow> map_of (ser_attrs (fst (snd r)) (snd (snd r))) k)"
proof (cases "lookup i s")
  case None
  then show ?thesis by (simp add: attribute_def map_of_elems lookup_forest)
next
  case (Some n)
  then have "has_nid i n" by (rule lookup_has_nid)
  with Some show ?thesis
    by (simp add: attribute_def map_of_elems lookup_forest [symmetric] getAttribute_root)
qed

lemma map_of_grow:
  assumes eq: "mset ys = mset xs + mset zs" and d: "distinct (map fst ys)"
    and i: "i \<notin> fst ` set zs"
  shows "map_of ys i = map_of xs i"
proof -
  have "mset (map fst ys) = mset (map fst (xs @ zs))"
    using eq by (metis mset_append mset_map)
  then have "distinct (map fst (xs @ zs))"
    using d mset_eq_imp_distinct_iff by blast
  then have dx: "distinct (map fst xs)" by simp
  have set: "set ys = set xs \<union> set zs"
    using eq by (metis mset_append set_append set_mset_mset)
  show ?thesis
  proof (cases "map_of xs i")
    case None
    then have "i \<notin> fst ` set xs" by (simp add: map_of_eq_None_iff)
    with i set have "i \<notin> fst ` set ys" by auto
    then have "map_of ys i = None" by (simp add: map_of_eq_None_iff)
    with None show ?thesis by simp
  next
    case (Some v)
    then have "(i, v) \<in> set xs" by (rule map_of_SomeD)
    with set have "(i, v) \<in> set ys" by simp
    with d have "map_of ys i = Some v" by simp
    with Some show ?thesis by simp
  qed
qed

lemma wellformed_ids:
  "wellformed s \<Longrightarrow> distinct (map fst (elems (forest s)))"
  "wellformed s \<Longrightarrow> i \<in> set (ids (forest s)) \<Longrightarrow> i < next_id s"
  by (auto simp: wellformed_def ids_def list_all_iff)

lemma attribute_set_innerHTML:
  assumes wf: "wellformed s" and i: "i \<in> set (ids (forest s))"
  shows "attribute i k (set_innerHTML L h s) = attribute i k s"
proof -
  let ?new = "build (next_id s) h"
  let ?Z = "if L \<in> set (ids (forest s)) then elems ?new else []"
  have "distinct (ids (forest s))" using wf by (simp add: wellformed_def)
  from elems_set_kids [OF this, of L ?new]
  have eq: "mset (elems (forest (set_innerHTML L h s))) = mset (elems (forest s)) + mset ?Z"
    by (simp add: forest_set_innerHTML)
  have "wellformed (set_innerHTML L h s)"
    using grows_set_innerHTML [of s L h] wf by (simp add: grows_def)
  then have d: "distinct (map fst (elems (forest (set_innerHTML L h s))))"
    by (rule wellformed_ids)
  have "i < next_id s" using wf i by (rule wellformed_ids)
  then have "i \<notin> set (ids ?new)" by (simp add: set_ids_build)
  then have "i \<notin> fst ` set ?Z" by (auto simp: ids_def)
  from map_of_grow [OF eq d this] show ?thesis
    by (simp add: attribute_elems)
qed

lemma attribute_appendChild:
  assumes wf: "wellformed s" and i: "i \<in> set (ids (forest s))"
    and new: "distinct (ids [n0])" "\<forall>x\<in>set (ids [n0]). next_id s \<le> x \<and> x < m" "next_id s \<le> m"
  shows "attribute i k (update j (appendChild n0) (s\<lparr>next_id := m\<rparr>)) = attribute i k s"
proof -
  let ?s' = "update j (appendChild n0) (s\<lparr>next_id := m\<rparr>)"
  let ?Z = "if j \<in> set (ids (forest s)) then elems [n0] else []"
  have "distinct (ids (forest s))" using wf by (simp add: wellformed_def)
  from elems_appendChild [OF this, of j n0]
  have eq: "mset (elems (forest ?s')) = mset (elems (forest s)) + mset ?Z"
    by (simp add: forest_update forest_def update_def)
  have "wellformed ?s'"
    using grows_appendChild [OF new, of j] wf by (simp add: grows_def)
  then have d: "distinct (map fst (elems (forest ?s')))"
    by (rule wellformed_ids)
  have "i < next_id s" using wf i by (rule wellformed_ids)
  with new(2) have "i \<notin> set (ids [n0])" by auto
  then have "i \<notin> fst ` set ?Z" by (auto simp: ids_def)
  from map_of_grow [OF eq d this] show ?thesis
    by (simp add: attribute_elems)
qed

lemma attribute_enterGameUIState:
  "k \<noteq> ''style'' \<Longrightarrow> attribute i k (enterGameUIState e s) = attribute i k s"
  by (simp add: enterGameUIState_def Let_def attribute_set_style split: option.split)

lemma ids_enterGameUIState: "ids (forest (enterGameUIState e s)) = ids (forest s)"
  by (simp add: enterGameUIState_def Let_def forest_update ids_modify_edit split: option.split)

lemma grows_wf: "grows s t \<Longrightarrow> wellformed s \<Longrightarrow> wellformed t"
  by (simp add: grows_def)

lemma grows_ids: "grows s t \<Longrightarrow> wellformed s \<Longrightarrow> i \<in> set (ids (forest s)) \<Longrightarrow> i \<in> set (ids (forest t))"
  by (auto simp: grows_def)

lemma attribute_show_session:
  assumes wf: "wellformed s" and c: "c \<in> set (ids (forest s))" and k: "k \<noteq> ''style''"
  shows "attribute c k (show_session e s) = attribute c k s"
proof -
  let ?s1 = "enterGameUIState e s"
  let ?s2 = "set_innerHTML (launchSection e) [] ?s1"
  have eq: "show_session e s =
        update (launchSection e) (appendChild (gameContainerWrapper (next_id s)))
          (?s2\<lparr>next_id := next_id s + 5\<rparr>)"
    by (simp add: show_session_def Let_def set_innerHTML_empty_next_id)
  have wf1: "wellformed ?s1" using growsR_enterGameUIState [OF grows_refl] wf by (rule grows_wf)
  have c1: "c \<in> set (ids (forest ?s1))" using c by (simp add: ids_enterGameUIState)
  have wf2: "wellformed ?s2" using grows_set_innerHTML wf1 by (rule grows_wf)
  have c2: "c \<in> set (ids (forest ?s2))" using grows_set_innerHTML wf1 c1 by (rule grows_ids)
  have "attribute c k (show_session e s) = attribute c k ?s2"
    unfolding eq by (rule attribute_appendChild [OF wf2 c2]) (simp_all add: ids_wrapper)
  also have "\<dots> = attribute c k ?s1" by (rule attribute_set_innerHTML [OF wf1 c1])
  also have "\<dots> = attribute c k s" using k by (rule attribute_enterGameUIState)
  finally show ?thesis .
qed

lemma show_session_fields [simp]:
  "next_id (show_session e s) = next_id s + 5"
  "listeners (show_session e s) = listeners s"
  "trace (show_session e s) = trace s"
  by (simp_all add: show_session_def Let_def set_innerHTML_def update_def enterGameUIState_def
        split: option.split)

text \<open>
  C4 (as amended): activating a card \<open>c\<close> in the menu state writes the player selector
  \<open>#game\<close>, the core \<open>gba\<close>, the data path, the autostart flag and both storage flags, and as
  game URL and game name the \<open>data-rom\<close> and \<open>data-title\<close> attributes of the card when they
  are present and not empty, the default path and the name "Pokemon" otherwise. All of
  them are in place in the state in which the script element is appended to the body.
\<close>

theorem emulator_configured:
  "wellformed s \<and> c \<in> set (ids (forest s)) \<and> getElementById ''game'' (doc s) = None \<longrightarrow>
     (\<exists>s1 s2. s1 = configure (or_default (attribute c ''data-rom'' s) default_rom)
                     (or_default (attribute c ''data-title'' s) ''Pokemon'') (show_session e s) \<and>
        s2 = load_loader (next_id s + 4) s1 \<and>
        openEmulator e (Element c) s = Returns (bind_controls (next_id s) s2) \<and>
        doc s1 = doc (show_session e s) \<and>
        doc s2 = doc s1 @ [loader_element (next_id s + 5)] \<and>
        doc (bind_controls (next_id s) s2) = doc s2 \<and>
        (\<forall>t \<in> {s1, s2, bind_controls (next_id s) s2}.
           EJS_player t = Some ''#game'' \<and>
           EJS_gameUrl t = Some (or_default (attribute c ''data-rom'' s) default_rom) \<and>
           EJS_gameName t = Some (or_default (attribute c ''data-title'' s) ''Pokemon'') \<and>
           EJS_core t = Some ''gba'' \<and>
           EJS_pathtodata t = Some ''jjjjj/EmulatorJS-main/data/'' \<and>
           EJS_startOnLoaded t = Some True \<and>
           EJS_disableDatabases t = Some True \<and>
           EJS_disableLocalStorage t = Some True) \<and>
        (\<forall>r. attribute c ''data-rom'' s = Some r \<and> r \<noteq> [] \<longrightarrow> EJS_gameUrl s1 = Some r) \<and>
        (\<forall>n. attribute c ''data-title'' s = Some n \<and> n \<noteq> [] \<longrightarrow> EJS_gameName s1 = Some n))"
proof (intro impI, elim conjE)
  assume wf: "wellformed s" and c: "c \<in> set (ids (forest s))"
    and menu: "getElementById ''game'' (doc s) = None"
  let ?rom = "or_default (attribute c ''data-rom'' s) default_rom"
  let ?title = "or_default (attribute c ''data-title'' s) ''Pokemon''"
  let ?s1 = "configure ?rom ?title (show_session e s)"
  let ?s2 = "load_loader (next_id s + 4) ?s1"
  let ?s3 = "bind_controls (next_id s) ?s2"
  have a: "attribute c ''data-rom'' (show_session e s) = attribute c ''data-rom'' s"
          "attribute c ''data-title'' (show_session e s) = attribute c ''data-title'' s"
    using wf c by (simp_all add: attribute_show_session)
  have run: "openEmulator e (Element c) s = Returns ?s3"
    using menu by (simp add: openEmulator_def Let_def resolve_def a)
  have d1: "doc ?s1 = doc (show_session e s)" by (simp add: configure_def)
  have d2: "doc ?s2 = doc ?s1 @ [loader_element (next_id s + 5)]"
    by (simp add: load_loader_def Let_def configure_def pathtodata_def loader_element_def)
  have d3: "doc ?s3 = doc ?s2" by (simp add: bind_controls_def)
  have cfg: "EJS_player t = Some ''#game'' \<and>
           EJS_gameUrl t = Some ?rom \<and>
           EJS_gameName t = Some ?title \<and>
           EJS_core t = Some ''gba'' \<and>
           EJS_pathtodata t = Some ''jjjjj/EmulatorJS-main/data/'' \<and>
           EJS_startOnLoaded t = Some True \<and>
           EJS_disableDatabases t = Some True \<and>
           EJS_disableLocalStorage t = Some True" if "t \<in> {?s1, ?s2, ?s3}" for t
    using that by (auto simp: configure_def load_loader_def Let_def bind_controls_def)
  have rom: "EJS_gameUrl ?s1 = Some r" if "attribute c ''data-rom'' s = Some r \<and> r \<noteq> []" for r
    using that by (simp add: configure_def or_default_def)
  have title: "EJS_gameName ?s1 = Some n" if "attribute c ''data-title'' s = Some n \<and> n \<noteq> []" for n
    using that by (simp add: configure_def or_default_def)
  show "\<exists>s1 s2. s1 = configure ?rom ?title (show_session e s) \<and>
        s2 = load_loader (next_id s + 4) s1 \<and>
        openEmulator e (Element c) s = Returns (bind_controls (next_id s) s2) \<and>
        doc s1 = doc (show_session e s) \<and>
        doc s2 = doc s1 @ [loader_element (next_id s + 5)] \<and>
        doc (bind_controls (next_id s) s2) = doc s2 \<and>
        (\<forall>t \<in> {s1, s2, bind_controls (next_id s) s2}.
           EJS_player t = Some ''#game'' \<and>
           EJS_gameUrl t = Some ?rom \<and>
           EJS_gameName t = Some ?title \<and>
           EJS_core t = Some ''gba'' \<and>
           EJS_pathtodata t = Some ''jjjjj/EmulatorJS-main/data/'' \<and>
           EJS_startOnLoaded t = Some True \<and>
           EJS_disableDatabases t = Some True \<and>
           EJS_disableLocalStorage t = Some True) \<and>
        (\<forall>r. attribute c ''data-rom'' s = Some r \<and> r \<noteq> [] \<longrightarrow> EJS_gameUrl s1 = Some r) \<and>
        (\<forall>n. attribute c ''data-title'' s = Some n \<and> n \<noteq> [] \<longrightarrow> EJS_gameName s1 = Some n)"
    using run d1 d2 d3 cfg rom title by blast
qed

subsection \<open>Activations that throw\<close>

text \<open>
  Line 163 reads \<open>cardElement.dataset.rom\<close>. It throws when \<open>cardElement\<close> is the event
  that a listener receives, and when no card was passed and none is found in the document;
  by then the launch area has been replaced.
\<close>

lemma wellformed_run: "init page = Inr (e, s0) \<Longrightarrow> wellformed (run e s0 ins)"
  using handles_live_run [of page e s0 ins] by (simp add: handles_live_def)

lemma openEmulator_event_throws:
  "getElementById ''game'' (doc s) = None \<Longrightarrow>
   openEmulator e Event s = Throws TypeError (show_session e s)"
  by (simp add: openEmulator_def resolve_def Let_def)

lemma openEmulator_no_card_throws:
  "getElementById ''game'' (doc s) = None \<Longrightarrow> first_match game_card (doc s) = None \<Longrightarrow>
   a = Undefined \<or> a = Null \<Longrightarrow>
   openEmulator e a s = Throws TypeError (show_session e s)"
  by (auto simp: openEmulator_def resolve_def Let_def)

lemma openEmulator_fallback:
  "getElementById ''game'' (doc s) = None \<Longrightarrow> first_match game_card (doc s) = Some c \<Longrightarrow>
   openEmulator e Undefined s = openEmulator e (Element (nid c)) s"
  by (simp add: openEmulator_def resolve_def Let_def)

lemma restored_click_is_event: "fire e RestoredClick w s = openEmulator e Event s"
  by simp

lemma show_session_leaves_config:
  "EJS_gameUrl (show_session e s) = EJS_gameUrl s"
  "EJS_gameName (show_session e s) = EJS_gameName s"
  "uncaught (show_session e s) = uncaught s"
  by (simp_all add: show_session_def Let_def set_innerHTML_def update_def enterGameUIState_def
        split: option.split)

subsection \<open>At most one mount point\<close>

lemma mounts_simps [simp]:
  "mounts [] = 0"
  "mounts (Text x # ns) = mounts ns"
  "mounts (Elem i t a c ks # ns) =
     (if map_of (ser_attrs a c) ''id'' = Some ''game'' then 1 else 0) + mounts ks + mounts ns"
  "mounts (F @ G) = mounts F + mounts G"
  by (simp_all add: mounts_def is_mount_def)

lemma mounts_mset: "mounts F = size (filter_mset is_mount (mset (elems F)))"
  by (simp add: mounts_def flip: mset_filter)

lemma mounts_all_matches: "length (all_matches (has_id ''game'') F) = mounts F"
  by (induction "has_id ''game''" F rule: all_matches.induct) (auto simp: has_id_def)

lemma no_mount: "first_match (has_id ''game'') F = None \<Longrightarrow> mounts F = 0"
  by (induction "has_id ''game''" F rule: first_match.induct)
     (auto simp: has_id_def split: if_splits option.splits)

lemma mounts_kids: "first_match P F = Some n \<Longrightarrow> mounts (kids n) \<le> mounts F"
  by (induction P F rule: first_match.induct) (auto split: if_splits option.splits)

lemma mounts_build_to_html: "mounts (build k (map to_html F)) = mounts F"
proof (induction F arbitrary: k rule: elems.induct)
  case (3 i t a c ks ns)
  then show ?case by simp
qed simp_all

lemma keeps_id_edit: "keeps_id g \<Longrightarrow> attr_edit g"
  unfolding keeps_id_def attr_edit_def by blast

lemma map_of_ser_attrs_other: "k \<noteq> ''style'' \<Longrightarrow> map_of (ser_attrs a c) k = map_of a k"
  by (simp add: ser_attrs_def map_of_put)

lemma keeps_id_simps [simp]:
  "keeps_id (set_style p v)"
  "keeps_id (setAttribute ''style'' v)"
  "keeps_id (setAttribute ''placeholder'' v)"
  "keeps_id (removeAttribute ''style'')"
  by (auto simp: keeps_id_def map_of_ser_attrs_other map_of_put map_of_del)

lemma mounts_modify_edit: "keeps_id g \<Longrightarrow> mounts (modify j g F) = mounts F"
proof (induction j g F rule: modify.induct)
  case (3 i f j t a c ks ns)
  from "3.prems" obtain a' c' where "f (Elem j t a c ks) = Elem j t a' c' ks"
    "map_of (ser_attrs a' c') ''id'' = map_of (ser_attrs a c) ''id''"
    unfolding keeps_id_def by blast
  with 3 show ?case by auto
qed simp_all

lemma mounts_set_kids:
  assumes "distinct (ids F)"
  shows "mounts (modify L (set_kids new) F) \<le> mounts F + mounts new"
proof -
  from elems_set_kids [OF assms, of L new]
  have "size (filter_mset is_mount (mset (elems (modify L (set_kids new) F)) +
          mset (elems (children_of L F)))) =
        size (filter_mset is_mount (mset (elems F) +
          (if L \<in> set (ids F) then mset (elems new) else {#})))"
    by simp
  then show ?thesis by (auto simp: mounts_mset split: if_splits)
qed

lemma mounts_appendChild:
  assumes "distinct (ids F)"
  shows "mounts (modify j (appendChild n0) F) \<le> mounts F + mounts [n0]"
proof -
  from elems_appendChild [OF assms, of j n0]
  have "size (filter_mset is_mount (mset (elems (modify j (appendChild n0) F)))) =
        size (filter_mset is_mount (mset (elems F) +
          (if j \<in> set (ids F) then mset (elems [n0]) else {#})))"
    by simp
  then show ?thesis by (auto simp: mounts_mset split: if_splits)
qed

lemma mounts_remove: "mounts (remove_matches P F) \<le> mounts F"
proof -
  have "size (filter_mset is_mount (mset (elems (remove_matches P F)) +
          mset (elems (detach_matches P F)))) = size (filter_mset is_mount (mset (elems F)))"
    by (simp only: elems_remove)
  then show ?thesis by (simp add: mounts_mset)
qed

lemma distinct_doc: "wellformed s \<Longrightarrow> distinct (ids (doc s))"
  by (simp add: wellformed_def forest_def)

lemma calm_refl: "calm s s"
  by (simp add: calm_def grows_refl)

lemma calm_trans: "calm s t \<Longrightarrow> calm t u \<Longrightarrow> calm s u"
  unfolding calm_def using grows_trans grows_wf by (meson le_trans)

lemma calmR: "calm t u \<Longrightarrow> calm s t \<Longrightarrow> calm s u"
  using calm_trans by blast

lemma calm_update: "keeps_id g \<Longrightarrow> calm s (update j g s)"
  unfolding calm_def
proof (intro conjI impI)
  assume g: "keeps_id g"
  then show "grows s (update j g s)" by (intro grows_update_edit keeps_id_edit)
  show "mounts (doc (update j g s)) \<le> mounts (doc s)"
    using g by (simp add: update_def mounts_modify_edit)
qed

lemma calm_set_innerHTML:
  "mounts (build (next_id s) h) = 0 \<Longrightarrow> calm s (set_innerHTML L h s)"
  unfolding calm_def
proof (intro conjI impI)
  show "grows s (set_innerHTML L h s)" by (rule grows_set_innerHTML)
  assume "mounts (build (next_id s) h) = 0" "wellformed s"
  then show "mounts (doc (set_innerHTML L h s)) \<le> mounts (doc s)"
    using mounts_set_kids [OF distinct_doc, of s L "build (next_id s) h"]
    by (simp add: set_innerHTML_def Let_def)
qed

lemma calm_same_doc:
  assumes "grows s t" "doc t = doc s"
  shows "calm s t"
  using assms by (simp add: calm_def)

lemma calm_fields:
  "calm s (effect x s)"
  "calm s (s\<lparr>timers := ts\<rparr>)"
  "calm s (s\<lparr>listeners := ls\<rparr>)"
  "calm s (s\<lparr>uncaught := us\<rparr>)"
  "calm s (s\<lparr>EJS_emulator := em\<rparr>)"
  "calm s (s\<lparr>fullscreenElement := fs\<rparr>)"
  "calm s (configure r t s)"
  "calm s (bind_controls n s)"
  "calm s (shutdown s)"
  by (rule calm_same_doc, rule grows_fields,
      simp add: effect_def configure_def bind_controls_def shutdown_def split: emulator.split)+

lemma calm_load_loader: "calm s (load_loader g s)"
  by (simp add: calm_def grows_load_loader) (simp add: load_loader_def Let_def)

lemma calm_remove_loader_scripts: "calm s (remove_loader_scripts s)"
  by (simp add: calm_def grows_remove_loader_scripts)
     (simp add: remove_loader_scripts_def Let_def mounts_remove)

lemma calmR_fields:
  "calm s t \<Longrightarrow> calm s (effect x t)"
  "calm s t \<Longrightarrow> calm s (t\<lparr>timers := ts\<rparr>)"
  "calm s t \<Longrightarrow> calm s (t\<lparr>listeners := ls\<rparr>)"
  "calm s t \<Longrightarrow> calm s (t\<lparr>uncaught := us\<rparr>)"
  "calm s t \<Longrightarrow> calm s (t\<lparr>EJS_emulator := em\<rparr>)"
  "calm s t \<Longrightarrow> calm s (t\<lparr>fullscreenElement := fs\<rparr>)"
  "calm s t \<Longrightarrow> calm s (configure r tt t)"
  "calm s t \<Longrightarrow> calm s (bind_controls n t)"
  "calm s t \<Longrightarrow> calm s (shutdown t)"
  "calm s t \<Longrightarrow> calm s (load_loader g t)"
  "calm s t \<Longrightarrow> calm s (remove_loader_scripts t)"
  by (erule calm_trans, rule calm_fields calm_load_loader calm_remove_loader_scripts)+

lemma calmR_update: "keeps_id g \<Longrightarrow> calm s t \<Longrightarrow> calm s (update j g t)"
  using calm_update calm_trans by blast

lemma calmR_enterGameUIState: "calm s t \<Longrightarrow> calm s (enterGameUIState e t)"
  unfolding enterGameUIState_def Let_def
  by (cases "controlsSection e"; cases "titleLogo e") (simp_all add: calmR_update)

lemma calmR_restoreMenuUIState:
  assumes free: "mount_free e" and t: "calm s t"
  shows "calm s (restoreMenuUIState e t)"
proof -
  let ?s1 = "set_innerHTML (launchSection e) (originalLaunchHTML e) t"
  let ?s2 = "case titleLogo e of None \<Rightarrow> ?s1
      | Some l \<Rightarrow> if originalLogoStyle e \<noteq> []
                  then update l (setAttribute ''style'' (originalLogoStyle e)) ?s1
                  else update l (removeAttribute ''style'') ?s1"
  let ?s3 = "case getElementById ''gameBtn'' (doc ?s2) of None \<Rightarrow> ?s2
      | Some b \<Rightarrow> ?s2\<lparr>listeners := listeners ?s2 @
           [(nid b, ''click'', RestoredClick), (nid b, ''keypress'', RestoredKeypress)]\<rparr>"
  have "calm t ?s1"
    using free by (intro calm_set_innerHTML) (simp add: mount_free_def)
  with t have 1: "calm s ?s1" by (rule calm_trans)
  have 2: "calm s ?s2"
    by (cases "titleLogo e") (simp_all add: 1 calmR_update)
  have 3: "calm s ?s3"
    by (cases "getElementById ''gameBtn'' (doc ?s2)") (simp_all add: 2 calmR_fields)
  have 4: "calm s (case controlsSection e of None \<Rightarrow> ?s3
      | Some c \<Rightarrow> update c (set_style ''display'' []) ?s3)"
    by (cases "controlsSection e") (simp_all add: 3 calmR_update)
  then show ?thesis
    by (simp add: restoreMenuUIState_def Let_def)
qed

lemma calmR_backBtn_click:
  "mount_free e \<Longrightarrow> calm s t \<Longrightarrow> calm s (settle (backBtn_click e w t))"
  by (simp add: backBtn_click_def settle_def Let_def calmR_fields calmR_restoreMenuUIState)

lemma calmR_fullBtn_click: "calm s t \<Longrightarrow> calm s (settle (fullBtn_click wr w t))"
  by (simp add: fullBtn_click_def settle_def calmR_fields)

lemma calm_appendChild:
  assumes "distinct (ids [n0])" "\<forall>i\<in>set (ids [n0]). next_id s \<le> i \<and> i < k" "next_id s \<le> k"
    and "mounts [n0] = 0"
  shows "calm s (update j (appendChild n0) (s\<lparr>next_id := k\<rparr>))"
  unfolding calm_def
proof (intro conjI impI)
  show "grows s (update j (appendChild n0) (s\<lparr>next_id := k\<rparr>))"
    using assms(1-3) by (rule grows_appendChild)
  assume "wellformed s"
  from mounts_appendChild [OF distinct_doc [OF this], of j n0] assms(4)
  show "mounts (doc (update j (appendChild n0) (s\<lparr>next_id := k\<rparr>))) \<le> mounts (doc s)"
    by (simp add: update_def)
qed

lemma calmR_script_onerror: "calm s t \<Longrightarrow> calm s (settle (script_onerror g sc t))"
proof -
  assume t: "calm s t"
  let ?err = "Elem (next_id t) ''div'' [] [(''color'', ''white''), (''padding'', ''10px'')] [Text load_error_text]"
  have "calm t (update g (appendChild ?err) (t\<lparr>next_id := next_id t + 1\<rparr>))"
    by (rule calm_appendChild) (simp_all add: ser_attrs_def)
  with t have "calm s (update g (appendChild ?err) (t\<lparr>next_id := next_id t + 1\<rparr>))"
    by (rule calm_trans)
  then show ?thesis
    by (simp add: script_onerror_def settle_def Let_def calmR_fields)
qed

lemma calmR_searchBtn_click: "calm s t \<Longrightarrow> calm s (settle (searchBtn_click e w t))"
  unfolding searchBtn_click_def settle_def Let_def
  by (cases "searchInput e"; cases "gameBtn e") (simp_all add: calmR_fields calmR_update)

lemma calmR_timeout: "calm s t \<Longrightarrow> calm s (timeout e t)"
  unfolding timeout_def
  by (cases "timers t"; cases "searchInput e")
     (simp_all add: calmR_fields calmR_update split: prod.split)

lemma one_session_calm: "one_session s \<Longrightarrow> calm s t \<Longrightarrow> one_session t"
  unfolding one_session_def calm_def grows_def by auto

lemma mounts_wrapper: "mounts [gameContainerWrapper n] = 1"
  by (simp add: gameContainerWrapper_def gameDiv_def menuBar_def backBtn_def fullBtn_def
      ser_attrs_def map_of_put)

lemma show_session_one:
  assumes wf: "wellformed s" and none: "mounts (doc s) = 0"
  shows "one_session (show_session e s)"
proof -
  let ?s1 = "enterGameUIState e s"
  let ?s2 = "set_innerHTML (launchSection e) [] ?s1"
  let ?w = "gameContainerWrapper (next_id s)"
  have eq: "show_session e s =
        update (launchSection e) (appendChild ?w) (?s2\<lparr>next_id := next_id s + 5\<rparr>)"
    by (simp add: show_session_def Let_def set_innerHTML_empty_next_id)
  have "calm s ?s1" by (intro calmR_enterGameUIState calm_refl)
  moreover have "calm ?s1 ?s2" by (rule calm_set_innerHTML) simp
  ultimately have c: "calm s ?s2" by (rule calm_trans)
  then have wf2: "wellformed ?s2" and m2: "mounts (doc ?s2) = 0"
    using wf none by (auto simp: calm_def grows_def)
  have "wellformed (show_session e s)"
    using grows_show_session [of s e] wf by (simp add: grows_def)
  moreover have "mounts (doc (show_session e s)) \<le> 1"
    using mounts_appendChild [OF distinct_doc [OF wf2], of "launchSection e" ?w] m2
    by (simp add: eq update_def mounts_wrapper)
  ultimately show ?thesis by (simp add: one_session_def)
qed

lemma one_session_openEmulator:
  assumes "one_session s"
  shows "one_session (settle (openEmulator e a s))"
proof (cases "getElementById ''game'' (doc s) = None")
  case False
  with assms show ?thesis by (simp add: openEmulator_def settle_def)
next
  case True
  then have "mounts (doc s) = 0" unfolding getElementById_def by (rule no_mount)
  with assms have one: "one_session (show_session e s)"
    by (intro show_session_one) (simp_all add: one_session_def)
  have a: "one_session (t\<lparr>uncaught := us\<rparr>)" if "one_session t" for t us
    using that calm_fields(4) by (rule one_session_calm)
  have b: "one_session (bind_controls n (load_loader g (configure r tt t)))"
    if "one_session t" for t n g r tt
    using that by (rule one_session_calm) (intro calmR_fields calm_refl)
  show ?thesis
    using True one
    by (cases "resolve a s") (simp_all add: openEmulator_def settle_def Let_def a b)
qed

lemma one_session_fire:
  assumes free: "mount_free e" and s: "one_session s"
  shows "one_session (settle (fire e h w s))"
proof (cases h)
  case SearchClick
  then show ?thesis
    using one_session_calm [OF s calmR_searchBtn_click [OF calm_refl]] by simp
next
  case (CardClick c)
  then show ?thesis using one_session_openEmulator [OF s] by simp
next
  case (CardKeypress c)
  have "one_session (effect PreventDefault s)"
    using s calm_fields(1) by (rule one_session_calm)
  then have "one_session (settle (openEmulator e (Element c) (effect PreventDefault s)))"
    by (rule one_session_openEmulator)
  moreover have "one_session (settle (Returns s))" using s by (simp add: settle_def)
  ultimately show ?thesis using CardKeypress by simp
next
  case RestoredClick
  then show ?thesis using one_session_openEmulator [OF s] by simp
next
  case RestoredKeypress
  have "one_session (effect PreventDefault s)"
    using s calm_fields(1) by (rule one_session_calm)
  then have "one_session (settle (openEmulator e Undefined (effect PreventDefault s)))"
    by (rule one_session_openEmulator)
  moreover have "one_session (settle (Returns s))" using s by (simp add: settle_def)
  ultimately show ?thesis using RestoredKeypress by simp
next
  case BackClick
  then show ?thesis
    using one_session_calm [OF s calmR_backBtn_click [OF free calm_refl]] by simp
next
  case (FullClick wr)
  then show ?thesis
    using one_session_calm [OF s calmR_fullBtn_click [OF calm_refl]] by simp
next
  case (ScriptError g sc)
  then show ?thesis
    using one_session_calm [OF s calmR_script_onerror [OF calm_refl]] by simp
qed

lemma one_session_foldl:
  "mount_free e \<Longrightarrow> one_session s \<Longrightarrow>
   one_session (foldl (\<lambda>s' h. settle (fire e h w s')) s hs)"
  by (induction hs arbitrary: s) (simp_all add: one_session_fire)

lemma one_session_step:
  assumes "mount_free e" "one_session s"
  shows "one_session (step e s inp)"
proof (cases inp)
  case (Dispatch i ty w)
  then show ?thesis using assms by (simp add: dispatch_def one_session_foldl)
next
  case Timeout
  then show ?thesis
    using one_session_calm [OF assms(2) calmR_timeout [OF calm_refl]] by simp
next
  case (EngineSets em)
  then show ?thesis
    using one_session_calm [OF assms(2) calm_fields(5)] by simp
qed

lemma one_session_run:
  "mount_free e \<Longrightarrow> one_session s \<Longrightarrow> one_session (run e s ins)"
  unfolding run_def by (induction ins arbitrary: s) (simp_all add: one_session_step)

lemma init_one_session:
  assumes init: "init page = Inr (e, s0)"
    and none: "getElementById ''game'' (build 0 page) = None"
  shows "mount_free e" "one_session s0"
proof -
  let ?d = "build 0 page"
  from init obtain launch where
    launch: "getElementById ''launch'' ?d = Some launch"
    and e: "originalLaunchHTML e = map to_html (kids launch)"
    and d: "doc s0 = ?d"
    by (auto simp: init_def Let_def loaded_def split: option.splits)
  have zero: "mounts ?d = 0" using none unfolding getElementById_def by (rule no_mount)
  have "mounts (kids launch) \<le> mounts ?d"
    using launch unfolding getElementById_def by (rule mounts_kids)
  with zero show "mount_free e"
    by (simp add: mount_free_def e mounts_build_to_html)
  show "one_session s0"
    using init_facts(1) [OF init] zero d by (simp add: one_session_def)
qed

text \<open>
  C2: while an element with id \<open>game\<close> is in the document, \<open>openEmulator\<close> returns the state
  it was given, whatever its argument: no change of the document, of the configuration, of
  the listeners or of the trace. Hence, on a page whose markup has no element with that id,
  the document never holds more than one mount point, whatever the inputs.
\<close>

theorem openEmulator_guard:
  "(getElementById ''game'' (doc s) \<noteq> None \<longrightarrow> openEmulator e a s = Returns s) \<and>
   (init page = Inr (e, s0) \<and> getElementById ''game'' (build 0 page) = None \<longrightarrow>
      length (all_matches (has_id ''game'') (doc (run e s0 ins))) \<le> 1)"
proof (intro conjI impI)
  assume "getElementById ''game'' (doc s) \<noteq> None"
  then show "openEmulator e a s = Returns s" by (simp add: openEmulator_def)
next
  assume "init page = Inr (e, s0) \<and> getElementById ''game'' (build 0 page) = None"
  then have i: "init page = Inr (e, s0)" and n: "getElementById ''game'' (build 0 page) = None"
    by simp_all
  from init_one_session [OF i n] have "one_session (run e s0 ins)" by (rule one_session_run)
  then show "length (all_matches (has_id ''game'') (doc (run e s0 ins))) \<le> 1"
    by (simp add: mounts_all_matches one_session_def)
qed

section \<open>The sample pages at work\<close>


text \<open>A card with \<open>data-rom=""\<close>: the game URL is the default path, not the empty text.\<close>

theorem empty_rom_defaulted:
  "map_option (attribute 6 ''data-rom'') (session empty_rom_page []) = Some (Some []) \<and>
   map_option EJS_gameUrl (session empty_rom_page [Dispatch 6 ''click'' (user [] True)]) =
     Some (Some ''/[Poke-Nexus] Pokemon - Edicion Rojo Fuego (Esp).gba'')"
  by code_simp

text \<open>
  Three searches in a row, the first two without a match and the third with one: when both
  timers have fired the placeholder is "No encontrado".
\<close>

theorem stale_after_three:
  "search ''yyy'' ''Pokemon Rojo Fuego'' = NotFound \<and>
   search ''rojo'' ''Pokemon Rojo Fuego'' = FocusTarget \<and>
   map_option (placeholder 2) (session sample_page []) = Some ''Buscar'' \<and>
   map_option (placeholder 2)
     (session sample_page
        [Dispatch 3 ''click'' (user ''zzz'' True), Dispatch 3 ''click'' (user ''yyy'' True),
         Dispatch 3 ''click'' (user ''rojo'' True), Timeout, Timeout]) = Some ''No encontrado'' \<and>
   map_option timers
     (session sample_page
        [Dispatch 3 ''click'' (user ''zzz'' True), Dispatch 3 ''click'' (user ''yyy'' True),
         Dispatch 3 ''click'' (user ''rojo'' True), Timeout, Timeout]) = Some []"
  by code_simp

text \<open>
  C5: on a page with two cards a game is started from the second card and left. A click
  on the restored game button then runs \<open>openEmulator\<close> with the event as its argument: the
  first card is not looked up, the exception is not caught, and the game URL is still the
  one of the session before. The key listener of the same button calls \<open>openEmulator()\<close> and
  does fall back to the first card.
\<close>

theorem restored_click_no_fallback:
  "map_option uncaught
     (session two_card_page
        [Dispatch 7 ''click'' (user [] True), Dispatch 10 ''click'' (user [] True),
         Dispatch 14 ''click'' (user [] True)]) = Some [TypeError] \<and>
   map_option EJS_gameUrl
     (session two_card_page
        [Dispatch 7 ''click'' (user [] True), Dispatch 10 ''click'' (user [] True),
         Dispatch 14 ''click'' (user [] True)]) = Some (Some ''/b.gba'') \<and>
   map_option uncaught
     (session two_card_page
        [Dispatch 7 ''click'' (user [] True), Dispatch 10 ''click'' (user [] True),
         Dispatch 14 ''keypress'' (user [] True)]) = Some [] \<and>
   map_option EJS_gameUrl
     (session two_card_page
        [Dispatch 7 ''click'' (user [] True), Dispatch 10 ''click'' (user [] True),
         Dispatch 14 ''keypress'' (user [] True)]) = Some (Some ''/a.gba'')"
  by code_simp

text \<open>
  C7: on the sample page, a game is started and left, and the restored game button is
  clicked. The \<open>TypeError\<close> of line 163 leaves the listener uncaught; the session container
  is shown, but its exit button has no listener, so a click on it changes nothing.
\<close>

theorem uncaught_type_error:
  "map_option uncaught
     (session sample_page
        [Dispatch 6 ''click'' (user [] True), Dispatch 9 ''click'' (user [] True),
         Dispatch 13 ''click'' (user [] True)]) = Some [TypeError] \<and>
   session sample_page
        [Dispatch 6 ''click'' (user [] True), Dispatch 9 ''click'' (user [] True),
         Dispatch 13 ''click'' (user [] True), Dispatch 16 ''click'' (user [] True)] =
   session sample_page
        [Dispatch 6 ''click'' (user [] True), Dispatch 9 ''click'' (user [] True),
         Dispatch 13 ''click'' (user [] True)]"
  by code_simp

lemma init_sample: "init sample_page = Inr (sample_closure, sample_state)"
  by code_simp


theorem best_effort_shutdown_witness:
  "answer (user [] True) \<and>
   EJS_emulator sample_engine_up = WithExit True \<and>
   hook_trace (WithExit True) = [ExitHook, ConsoleWarn ''EJS_emulator.exit failed''] \<and>
   (\<exists>s'. backBtn_click sample_closure (user [] True) sample_engine_up = Returns s' \<and>
      trace s' = trace sample_engine_up @
                 Confirm confirmText # hook_trace (EJS_emulator sample_engine_up) \<and>
      uncaught s' = uncaught sample_engine_up \<and>
      all_matches (loader_script sample_engine_up)
        (doc (remove_loader_scripts sample_engine_up)) = [])"
proof -
  have h: "answer (user [] True)" by code_simp
  have s: "EJS_emulator sample_engine_up = WithExit True" by code_simp
  have t: "hook_trace (WithExit True) = [ExitHook, ConsoleWarn ''EJS_emulator.exit failed'']"
    by code_simp
  from best_effort_shutdown [of "user [] True" sample_closure sample_engine_up NoEmulator] h
  have "\<exists>s'. backBtn_click sample_closure (user [] True) sample_engine_up = Returns s' \<and>
      trace s' = trace sample_engine_up @
                 Confirm confirmText # hook_trace (EJS_emulator sample_engine_up) \<and>
      uncaught s' = uncaught sample_engine_up \<and>
      all_matches (loader_script sample_engine_up)
        (doc (remove_loader_scripts sample_engine_up)) = []"
    by blast
  with h s t show ?thesis by blast
qed



theorem placeholder_after_pair_witness:
  "searchInput sample_closure = Some 2 \<and> gameBtn sample_closure = Some 6 \<and>
   lookup 2 sample_state \<noteq> None \<and>
   search (query (user ''zelda'' True)) (innerText 6 sample_state) = NotFound \<and>
   search (query (user ''rojo'' True))
     (innerText 6 (settle (searchBtn_click sample_closure (user ''zelda'' True) sample_state))) =
     FocusTarget \<and>
   placeholder 2 sample_state = ''Buscar'' \<and>
   placeholder 2
     (settle_timers sample_closure
        (settle (searchBtn_click sample_closure (user ''rojo'' True)
           (settle (searchBtn_click sample_closure (user ''zelda'' True) sample_state))))) =
     placeholder 2 sample_state"
proof -
  let ?s1 = "settle (searchBtn_click sample_closure (user ''zelda'' True) sample_state)"
  let ?s2 = "settle (searchBtn_click sample_closure (user ''rojo'' True) ?s1)"
  have h: "searchInput sample_closure = Some 2 \<and> gameBtn sample_closure = Some 6 \<and>
     lookup 2 sample_state \<noteq> None \<and>
     search (query (user ''zelda'' True)) (innerText 6 sample_state) = NotFound \<and>
     searchBtn_click sample_closure (user ''zelda'' True) sample_state = Returns ?s1 \<and>
     search (query (user ''rojo'' True)) (innerText 6 ?s1) = FocusTarget \<and>
     searchBtn_click sample_closure (user ''rojo'' True) ?s1 = Returns ?s2"
    by code_simp
  have p: "placeholder 2 sample_state = ''Buscar''" by code_simp
  from placeholder_after_pair [of sample_closure 2 6 sample_state "user ''zelda'' True" ?s1
      "user ''rojo'' True" ?s2] h
  have "placeholder 2 (settle_timers sample_closure ?s2) = placeholder 2 sample_state"
    by blast
  with h p show ?thesis by blast
qed

theorem emulator_configured_witness:
  "wellformed sample_state \<and> 6 \<in> set (ids (forest sample_state)) \<and>
   getElementById ''game'' (doc sample_state) = None \<and>
   attribute 6 ''data-rom'' sample_state = Some ''/a.gba'' \<and>
   (\<exists>s1. openEmulator sample_closure (Element 6) sample_state =
           Returns (bind_controls (next_id sample_state)
                      (load_loader (next_id sample_state + 4) s1)) \<and>
      doc (load_loader (next_id sample_state + 4) s1) =
        doc s1 @ [loader_element (next_id sample_state + 5)] \<and>
      EJS_gameUrl s1 = Some ''/a.gba'' \<and> EJS_core s1 = Some ''gba'' \<and>
      EJS_startOnLoaded s1 = Some True \<and>
      EJS_disableDatabases s1 = Some True \<and> EJS_disableLocalStorage s1 = Some True)"
proof -
  have h: "wellformed sample_state \<and> 6 \<in> set (ids (forest sample_state)) \<and>
     getElementById ''game'' (doc sample_state) = None"
    by code_simp
  have a: "attribute 6 ''data-rom'' sample_state = Some ''/a.gba'' \<and> ''/a.gba'' \<noteq> []"
    by code_simp
  from emulator_configured [of sample_state 6 sample_closure] h
  obtain s1 s2 where s1:
    "s2 = load_loader (next_id sample_state + 4) s1"
    "openEmulator sample_closure (Element 6) sample_state =
       Returns (bind_controls (next_id sample_state) s2)"
    "doc s2 = doc s1 @ [loader_element (next_id sample_state + 5)]"
    "\<forall>t \<in> {s1, s2, bind_controls (next_id sample_state) s2}.
           EJS_player t = Some ''#game'' \<and>
           EJS_gameUrl t = Some (or_default (attribute 6 ''data-rom'' sample_state) default_rom) \<and>
           EJS_gameName t = Some (or_default (attribute 6 ''data-title'' sample_state) ''Pokemon'') \<and>
           EJS_core t = Some ''gba'' \<and>
           EJS_pathtodata t = Some ''jjjjj/EmulatorJS-main/data/'' \<and>
           EJS_startOnLoaded t = Some True \<and>
           EJS_disableDatabases t = Some True \<and>
           EJS_disableLocalStorage t = Some True"
    "\<forall>r. attribute 6 ''data-rom'' sample_state = Some r \<and> r \<noteq> [] \<longrightarrow> EJS_gameUrl s1 = Some r"
    by blast
  from s1(4) have c: "EJS_core s1 = Some ''gba''" "EJS_startOnLoaded s1 = Some True"
    "EJS_disableDatabases s1 = Some True" "EJS_disableLocalStorage s1 = Some True"
    by blast+
  from s1(5) a have u: "EJS_gameUrl s1 = Some ''/a.gba''" by blast
  from h a s1(1,2,3) c u show ?thesis by blast
qed

theorem openEmulator_guard_witness:
  "getElementById ''game'' (doc sample_in_game) \<noteq> None \<and>
   init sample_page = Inr (sample_closure, sample_state) \<and>
   getElementById ''game'' (build 0 sample_page) = None \<and>
   openEmulator sample_closure (Element 6) sample_in_game = Returns sample_in_game \<and>
   length (all_matches (has_id ''game'')
     (doc (run sample_closure sample_state
        [Dispatch 6 ''click'' (user [] True), Dispatch 6 ''click'' (user [] True)]))) \<le> 1"
proof -
  have h: "getElementById ''game'' (doc sample_in_game) \<noteq> None \<and>
     init sample_page = Inr (sample_closure, sample_state) \<and>
     getElementById ''game'' (build 0 sample_page) = None"
    by code_simp
  from openEmulator_guard [of sample_in_game sample_closure "Element 6" sample_page sample_state
      "[Dispatch 6 ''click'' (user [] True), Dispatch 6 ''click'' (user [] True)]"] h
  show ?thesis by blast
qed

end
